theory Spec2Isabelle
  imports Main "HOL-Library.Sublist"
begin

text \<open>
  A shallow embedding of \<^verbatim>\<open>Types/_entity/adapter/SbisFormatController.ts\<close>: the resumable
  format search (\<^verbatim>\<open>RecursiveStack\<close>, \<^verbatim>\<open>RecursiveIterator\<close>), the controller with its cache
  (\<^verbatim>\<open>SbisFormatController\<close>) and the eager walk (\<^verbatim>\<open>eachFormatEntry\<close>, \<^verbatim>\<open>recoverFormats\<close>,
  \<^verbatim>\<open>recoverData\<close>).
\<close>

section \<open>Payload values\<close>

text \<open>
  Raw data is a tree of JavaScript values. Of an object only the fields the code reads are
  kept: \<^verbatim>\<open>f\<close> (a format id, \<open>None\<close> when \<^verbatim>\<open>undefined\<close>), \<^verbatim>\<open>s\<close> (a reference to a field list,
  \<open>None\<close> when \<^verbatim>\<open>undefined\<close>) and \<^verbatim>\<open>d\<close> (any value; \<open>Prim PUndefined\<close> when the field is
  missing). The type \<open>'s\<close> is what \<^verbatim>\<open>s\<close> holds: the engine only moves it around.
\<close>

datatype prim = PUndefined | PNull | PBool bool | PNum int | PStr string

datatype 's json = Prim prim | Arr "'s json list" | Obj "int option" "'s option" "'s json"

text \<open>JavaScript truthiness (\<^verbatim>\<open>if (record.d)\<close>), \<^verbatim>\<open>x instanceof Object\<close> and
  \<^verbatim>\<open>typeof x === 'object'\<close> (which holds of \<^verbatim>\<open>null\<close>).\<close>

fun truthy_prim :: "prim \<Rightarrow> bool" where
  "truthy_prim PUndefined = False"
| "truthy_prim PNull = False"
| "truthy_prim (PBool b) = b"
| "truthy_prim (PNum n) = (n \<noteq> 0)"
| "truthy_prim (PStr s) = (s \<noteq> [])"

fun truthy :: "'s json \<Rightarrow> bool" where
  "truthy (Prim p) = truthy_prim p"
| "truthy (Arr xs) = True"
| "truthy (Obj f s d) = True"

fun instanceof_Object :: "'s json \<Rightarrow> bool" where
  "instanceof_Object (Prim p) = False"
| "instanceof_Object (Arr xs) = True"
| "instanceof_Object (Obj f s d) = True"

fun typeof_object :: "'s json \<Rightarrow> bool" where
  "typeof_object (Prim p) = (p = PNull)"
| "typeof_object (Arr xs) = True"
| "typeof_object (Obj f s d) = True"

section \<open>RecursiveStack\<close>

text \<open>
  The stack holds wrapper objects \<^verbatim>\<open>{data, iterator?, completed?}\<close>. The iterator of an
  array wrapper (\<^verbatim>\<open>data[Symbol.iterator]()\<close> or \<^verbatim>\<open>IteratorArray\<close>) is represented by the
  items it has not delivered yet. \<^verbatim>\<open>RecursiveStack\<close> keeps its nodes in a map keyed
  \<open>0 .. processableId\<close>: that is the list of the nodes, bottom first, and
  \<open>processableId = length - 1\<close>.
\<close>

record 's node =
  data :: "'s json"
  iterator :: "'s json list option"
  completed :: bool

type_synonym 's RecursiveStack = "'s node list"
type_synonym 's storage = "int \<rightharpoonup> 's"

definition wrap :: "'s json \<Rightarrow> 's node" where
  "wrap j = \<lparr>data = j, iterator = None, completed = False\<rparr>"

definition processableId :: "'s RecursiveStack \<Rightarrow> int" where
  "processableId S = int (length S) - 1"

definition currentNode :: "'s RecursiveStack \<Rightarrow> 's node option" where
  "currentNode S = (if S = [] then None else Some (last S))"

definition push :: "'s RecursiveStack \<Rightarrow> 's node \<Rightarrow> 's RecursiveStack" where
  "push S n = S @ [n]"

definition pop :: "'s RecursiveStack \<Rightarrow> 's RecursiveStack" where
  "pop S = butlast S"

text \<open>
  \<^verbatim>\<open>_process\<close> holds the wrapper it works on in the local \<^verbatim>\<open>node\<close> and writes to it
  (\<^verbatim>\<open>node.iterator\<close>, \<^verbatim>\<open>node.completed\<close>) while deeper wrappers are pushed and popped above it.
  The model names that wrapper by its slot \<open>k\<close> in the stack (the value of \<open>processableId\<close>
  when \<^verbatim>\<open>_process\<close> was entered) and writes to the slot. A write to a slot that is gone
  (the second \<^verbatim>\<open>node.completed = true\<close>, after \<^verbatim>\<open>pop()\<close>) changes nothing that is read again.
\<close>

definition set_iterator :: "nat \<Rightarrow> 's json list \<Rightarrow> 's RecursiveStack \<Rightarrow> 's RecursiveStack" where
  "set_iterator k it S = S[k := (S ! k)\<lparr>iterator := Some it\<rparr>]"

definition set_completed :: "nat \<Rightarrow> 's RecursiveStack \<Rightarrow> 's RecursiveStack" where
  "set_completed k S = S[k := (S ! k)\<lparr>completed := True\<rparr>]"

section \<open>RecursiveIterator\<close>

text \<open>
  \<^verbatim>\<open>if (node.data.f !== undefined && node.data.s && !storage.has(node.data.f)) {
       storage.set(node.data.f, node.data.s);
       if (node.data.f === id) return node.data.s; }\<close>
  The first component is the value returned early, if any.
\<close>

definition register_format ::
  "int option \<Rightarrow> 's option \<Rightarrow> int option \<Rightarrow> 's storage \<Rightarrow> 's option \<times> 's storage" where
  "register_format f s tgt st =
     (case f of
        None \<Rightarrow> (None, st)
      | Some i \<Rightarrow>
         (case s of
            None \<Rightarrow> (None, st)
          | Some v \<Rightarrow>
              if st i = None
              then (if tgt = Some i then (Some v, st(i \<mapsto> v)) else (None, st(i \<mapsto> v)))
              else (None, st)))"

text \<open>
  \<^verbatim>\<open>_process\<close>. \<open>process_data tgt k j S st\<close> is the call on a wrapper in slot \<open>k\<close> whose data
  is \<open>j\<close> and that has no iterator yet and is not completed (every wrapper just pushed is
  so); \<open>process_loop\<close> is the \<^verbatim>\<open>while (true)\<close> over \<^verbatim>\<open>node.iterator\<close>; \<open>process\<close> below is the
  entry that reads \<^verbatim>\<open>currentNode\<close> with whatever iterator and flag it has. The result is
  the returned value (\<open>None\<close> for \<^verbatim>\<open>undefined\<close>), the stack and the storage afterwards.
\<close>

fun process_data :: "int option \<Rightarrow> nat \<Rightarrow> 's json \<Rightarrow> 's RecursiveStack \<Rightarrow> 's storage
      \<Rightarrow> 's option \<times> 's RecursiveStack \<times> 's storage"
and process_loop :: "int option \<Rightarrow> nat \<Rightarrow> 's json list \<Rightarrow> 's RecursiveStack \<Rightarrow> 's storage
      \<Rightarrow> 's option \<times> 's RecursiveStack \<times> 's storage"
where
  "process_data tgt k (Arr xs) S st = process_loop tgt k xs (set_iterator k xs S) st"
| "process_data tgt k (Obj f s d) S st =
     (case register_format f s tgt st of
        (Some v, st1) \<Rightarrow> (Some v, S, st1)
      | (None, st1) \<Rightarrow>
          if truthy d then
            (case process_data tgt (length S) d (set_completed k (push S (wrap d))) st1 of
               (Some r, S2, st2) \<Rightarrow> (Some r, S2, st2)
             | (None, S2, st2) \<Rightarrow> (None, pop S2, st2))
          else (None, pop S, st1))"
| "process_data tgt k (Prim p) S st = (None, pop S, st)"
| "process_loop tgt k [] S st = (None, pop S, st)"
| "process_loop tgt k (item # rest) S st =
     (let S1 = set_iterator k rest S in
      if instanceof_Object item then
        (case process_data tgt (length S1) item (push S1 (wrap item)) st of
           (Some r, S2, st2) \<Rightarrow> (Some r, S2, st2)
         | (None, S2, st2) \<Rightarrow> process_loop tgt k rest S2 st2)
      else process_loop tgt k rest S1 st)"

definition process :: "int option \<Rightarrow> 's RecursiveStack \<Rightarrow> 's storage
      \<Rightarrow> 's option \<times> 's RecursiveStack \<times> 's storage" where
  "process tgt S st =
     (case currentNode S of
        None \<Rightarrow> (None, S, st)
      | Some nd \<Rightarrow>
         (let k = length S - 1 in
          case data nd of
            Arr xs \<Rightarrow>
              (case iterator nd of
                 None \<Rightarrow> process_data tgt k (Arr xs) S st
               | Some rest \<Rightarrow> process_loop tgt k rest S st)
          | Obj f s d \<Rightarrow>
              if \<not> completed nd then process_data tgt k (Obj f s d) S st
              else (None, pop S, st)
          | Prim p \<Rightarrow> (None, pop S, st)))"

lemma currentNode_snoc [simp]: "currentNode (L @ [n]) = Some n"
  by (simp add: currentNode_def)

lemma process_push_wrap:
  "process tgt (push S (wrap j)) st = process_data tgt (length S) j (push S (wrap j)) st"
  by (cases j) (simp_all add: process_def push_def wrap_def pop_def Let_def)

lemma set_iterator_snoc [simp]:
  "set_iterator (length L) it (L @ [n]) = L @ [n\<lparr>iterator := Some it\<rparr>]"
  by (simp add: set_iterator_def)

lemma set_completed_snoc2 [simp]:
  "set_completed (length L) (push (L @ [n]) m) = (L @ [n\<lparr>completed := True\<rparr>]) @ [m]"
  by (simp add: set_completed_def push_def list_update_append nth_append)

text \<open>Stack discipline: a call never touches the wrappers below its own, and when it
  returns \<^verbatim>\<open>undefined\<close> it has popped exactly its own wrapper.\<close>

lemma process_discipline:
  "process_data tgt k j S st = (r, S', st') \<Longrightarrow> S = L @ [n] \<Longrightarrow> k = length L
     \<Longrightarrow> \<exists>X. S' = L @ X \<and> (r = None \<longrightarrow> X = [])"
  "process_loop tgt k js S st = (r, S', st') \<Longrightarrow> S = L @ [n] \<Longrightarrow> k = length L
     \<Longrightarrow> \<exists>X. S' = L @ X \<and> (r = None \<longrightarrow> X = [])"
proof (induction tgt k j S st and tgt k js S st
       arbitrary: L n r S' st' and L n r S' st' rule: process_data_process_loop.induct)
  case (1 tgt k xs S st)
  from 1(2) 1(3) 1(4) show ?case
    by (auto intro: 1(1)[where n = "n\<lparr>iterator := Some xs\<rparr>"])
next
  case (2 tgt k f s d S st)
  show ?case
  proof (cases "register_format f s tgt st")
    case (Pair y st1)
    show ?thesis
    proof (cases y)
      case (Some v)
      with Pair 2(2) 2(3) show ?thesis by auto
    next
      case None
      show ?thesis
      proof (cases "truthy d")
        case False
        with None Pair 2(2) 2(3) show ?thesis by (auto simp: pop_def)
      next
        case True
        let ?nc = "n\<lparr>completed := True\<rparr>"
        obtain r2 S2 st2 where c: "process_data tgt (length S) d
            (set_completed k (push S (wrap d))) st1 = (r2, S2, st2)"
          by (metis prod_cases3)
        have e: "set_completed k (push S (wrap d)) = (L @ [?nc]) @ [wrap d]"
          using 2(3) 2(4) by simp
        have "\<exists>X. S2 = (L @ [?nc]) @ X \<and> (r2 = None \<longrightarrow> X = [])"
          using 2(1)[OF Pair[symmetric] None True c e] 2(3) by simp
        then obtain X where X: "S2 = (L @ [?nc]) @ X" "r2 = None \<longrightarrow> X = []"
          by blast
        from 2(2) Pair None True c X show ?thesis
          by (cases r2) (auto simp: pop_def)
      qed
    qed
  qed
next
  case (3 tgt k p S st)
  then show ?case by (simp add: pop_def)
next
  case (4 tgt k S st)
  then show ?case by (simp add: pop_def)
next
  case (5 tgt k item rest S st)
  let ?n1 = "n\<lparr>iterator := Some rest\<rparr>"
  have S1: "set_iterator k rest S = L @ [?n1]" using 5(5) 5(6) by simp
  show ?case
  proof (cases "instanceof_Object item")
    case False
    have "process_loop tgt k rest (L @ [?n1]) st = (r, S', st')"
      using 5(4) False S1 by (simp add: Let_def)
    then show ?thesis
      using 5(3)[OF refl False _ _ 5(6), of r S' st' ?n1] S1 by simp
  next
    case True
    obtain r2 S2 st2 where c: "process_data tgt (length (set_iterator k rest S)) item
            (push (set_iterator k rest S) (wrap item)) st = (r2, S2, st2)"
      by (metis prod_cases3)
    have "\<exists>X. S2 = (L @ [?n1]) @ X \<and> (r2 = None \<longrightarrow> X = [])"
      using 5(1)[OF refl True c, of "L @ [?n1]" "wrap item"] S1
      by (simp add: push_def)
    then obtain X where X: "S2 = (L @ [?n1]) @ X" "r2 = None \<longrightarrow> X = []"
      by blast
    show ?thesis
    proof (cases r2)
      case (Some v)
      with 5(4) True c X S1 show ?thesis by (auto simp: Let_def)
    next
      case None
      with X have S2: "S2 = L @ [?n1]" by simp
      have "process_loop tgt k rest S2 st2 = (r, S', st')"
        using 5(4) True c None by (simp add: Let_def)
      then show ?thesis
        using 5(2)[OF refl True _ None _ _ S2 5(6), of "(S2, st2)" st2 r S' st'] c None
        by simp
    qed
  qed
qed


lemma process_pops:
  assumes "S \<noteq> []" and "process tgt S st = (None, S', st')"
  shows "S' = butlast S"
proof -
  from assms(1) obtain L n where S: "S = L @ [n]" by (meson rev_exhaust)
  have k: "length S - 1 = length L" using S by simp
  have "\<exists>X. S' = L @ X \<and> ((None :: 'a option) = None \<longrightarrow> X = [])"
  proof (cases "data n")
    case (Prim p)
    with assms(2) S show ?thesis by (simp add: process_def pop_def Let_def)
  next
    case (Arr xs)
    show ?thesis
    proof (cases "iterator n")
      case None
      with Arr assms(2) S k have "process_data tgt (length L) (Arr xs) S st = (None, S', st')"
        by (simp add: process_def Let_def)
      from process_discipline(1)[OF this S refl] show ?thesis .
    next
      case (Some rest)
      with Arr assms(2) S k have "process_loop tgt (length L) rest S st = (None, S', st')"
        by (simp add: process_def Let_def)
      from process_discipline(2)[OF this S refl] show ?thesis .
    qed
  next
    case (Obj f s d)
    show ?thesis
    proof (cases "completed n")
      case True
      with Obj assms(2) S show ?thesis by (simp add: process_def pop_def Let_def)
    next
      case False
      with Obj assms(2) S k have "process_data tgt (length L) (Obj f s d) S st = (None, S', st')"
        by (simp add: process_def Let_def)
      from process_discipline(1)[OF this S refl] show ?thesis .
    qed
  qed
  with S show ?thesis by simp
qed

text \<open>\<^verbatim>\<open>next\<close>: the loop runs \<^verbatim>\<open>_process\<close> until a value is returned or the stack is empty.
  It terminates because a call that returns \<^verbatim>\<open>undefined\<close> leaves a shorter stack.\<close>

function next_loop :: "int option \<Rightarrow> 's RecursiveStack \<Rightarrow> 's storage
      \<Rightarrow> 's option \<times> 's RecursiveStack \<times> 's storage" where
  "next_loop tgt S st =
     (if processableId S < 0 then (None, S, st)
      else (case process tgt S st of
              (Some r, S', st') \<Rightarrow> (Some r, S', st')
            | (None, S', st') \<Rightarrow> next_loop tgt S' st'))"
  by pat_completeness auto
termination
  apply (relation "measure (\<lambda>(tgt, S, st). length S)")
   apply simp
  apply (auto simp: processableId_def)
  subgoal for tgt S st a b
    using process_pops[of S tgt st a b] by simp
  done

declare next_loop.simps [simp del]

section \<open>Document order\<close>

text \<open>
  The format declarations of a payload in document order (outer to inner, left to right):
  the carriers with both an id and an inline structure, as a walk through arrays and \<^verbatim>\<open>d\<close>
  subtrees meets them. \<open>scan\<close> is the search the spec describes, run over that list: record
  every id not yet in the storage, stop at the first newly recorded one that is the target;
  its second component is what is left of the list, starting at the entry it stopped at.
\<close>

fun decls :: "'s json \<Rightarrow> (int \<times> 's) list"
and decls_list :: "'s json list \<Rightarrow> (int \<times> 's) list" where
  "decls (Prim p) = []"
| "decls (Arr xs) = decls_list xs"
| "decls (Obj f s d) =
     (case f of None \<Rightarrow> [] | Some i \<Rightarrow> (case s of None \<Rightarrow> [] | Some v \<Rightarrow> [(i, v)])) @ decls d"
| "decls_list [] = []"
| "decls_list (x # xs) = decls x @ decls_list xs"

fun scan :: "int option \<Rightarrow> (int \<times> 's) list \<Rightarrow> 's storage
     \<Rightarrow> 's option \<times> (int \<times> 's) list \<times> 's storage" where
  "scan tgt [] st = (None, [], st)"
| "scan tgt ((i, v) # ds) st =
     (if st i = None
      then (if tgt = Some i then (Some v, (i, v) # ds, st(i \<mapsto> v))
            else scan tgt ds (st(i \<mapsto> v)))
      else scan tgt ds st)"

text \<open>What a paused stack has still to offer, in the order it will offer it.\<close>

definition node_pending :: "'s node \<Rightarrow> (int \<times> 's) list" where
  "node_pending nd =
     (case data nd of
        Arr xs \<Rightarrow> (case iterator nd of None \<Rightarrow> decls_list xs | Some rest \<Rightarrow> decls_list rest)
      | Obj f s d \<Rightarrow> if completed nd then [] else decls (Obj f s d)
      | Prim p \<Rightarrow> [])"

definition pending :: "'s RecursiveStack \<Rightarrow> (int \<times> 's) list" where
  "pending S = concat (map node_pending (rev S))"

lemma pending_simps [simp]:
  "pending [] = []"
  "pending (L @ X) = pending X @ pending L"
  "pending (n # X) = pending X @ node_pending n"
  by (simp_all add: pending_def)

lemma scan_Cons_None:
  "st i = None \<Longrightarrow> scan tgt ((i, v) # ds) st =
     (if tgt = Some i then (Some v, (i, v) # ds, st(i \<mapsto> v)) else scan tgt ds (st(i \<mapsto> v)))"
  by simp

lemma scan_Cons_Some:
  "st i = Some w \<Longrightarrow> scan tgt ((i, v) # ds) st = scan tgt ds st"
  by simp

lemma scan_append:
  "scan tgt (ds1 @ ds2) st =
     (case scan tgt ds1 st of
        (Some v, rest, st') \<Rightarrow> (Some v, rest @ ds2, st')
      | (None, rest, st') \<Rightarrow> scan tgt ds2 st')"
proof (induction ds1 arbitrary: st)
  case Nil
  show ?case by simp
next
  case (Cons a ds1)
  obtain i v where a: "a = (i, v)" by (cases a)
  note h1 = Cons.IH[of "st(i \<mapsto> v)"] and h2 = Cons.IH[of st]
  show ?case
  proof (cases "st i")
    case None
    show ?thesis
      unfolding a append_Cons scan_Cons_None[of st i, OF None] h1 by simp
  next
    case (Some w)
    show ?thesis
      unfolding a append_Cons scan_Cons_Some[of st i, OF Some] h2 by simp
  qed
qed

lemma scan_None_rest: "scan tgt ds st = (None, rest, st') \<Longrightarrow> rest = []"
proof (induction ds arbitrary: st)
  case Nil
  then show ?case by simp
next
  case (Cons a ds)
  obtain i v where a: "a = (i, v)" by (cases a)
  show ?case
  proof (cases "st i")
    case None
    from Cons.prems have "tgt \<noteq> Some i \<and> scan tgt ds (st(i \<mapsto> v)) = (None, rest, st')"
      unfolding a scan_Cons_None[of st i, OF None] by (simp split: if_splits)
    then show ?thesis using Cons.IH[of "st(i \<mapsto> v)"] by blast
  next
    case (Some w)
    from Cons.prems have "scan tgt ds st = (None, rest, st')"
      unfolding a scan_Cons_Some[of st i, OF Some] .
    then show ?thesis by (rule Cons.IH)
  qed
qed
lemma not_truthy_decls: "\<not> truthy d \<Longrightarrow> decls d = []"
  by (cases d) auto

lemma not_Object_decls: "\<not> instanceof_Object d \<Longrightarrow> decls d = []"
  by (cases d) auto

lemma scan_register:
  "scan tgt ((case f of None \<Rightarrow> [] | Some i \<Rightarrow> (case s of None \<Rightarrow> [] | Some v \<Rightarrow> [(i, v)])) @ ds) st =
     (case register_format f s tgt st of
        (Some v, st1) \<Rightarrow> (Some v, (the f, v) # ds, st1)
      | (None, st1) \<Rightarrow> scan tgt ds st1)"
  by (auto simp: register_format_def split: option.splits)

lemma register_Some:
  "register_format f s tgt st = (Some v, st1)
     \<Longrightarrow> \<exists>i. f = Some i \<and> tgt = Some i \<and> s = Some v \<and> st i = None \<and> st1 = st(i \<mapsto> v)"
  by (auto simp: register_format_def split: option.splits if_splits)

lemma process_scan:
  "process_data tgt k j S st = (r, S', st') \<Longrightarrow> S = L @ [n] \<Longrightarrow> k = length L
     \<Longrightarrow> data n = j \<Longrightarrow> \<not> completed n
     \<Longrightarrow> \<exists>X. S' = L @ X \<and> (r = None \<longrightarrow> X = []) \<and> scan tgt (decls j) st = (r, pending X, st')"
  "process_loop tgt k js S st = (r, S', st') \<Longrightarrow> S = L @ [n] \<Longrightarrow> k = length L
     \<Longrightarrow> (\<exists>xs. data n = Arr xs) \<Longrightarrow> iterator n = Some js
     \<Longrightarrow> \<exists>X. S' = L @ X \<and> (r = None \<longrightarrow> X = []) \<and> scan tgt (decls_list js) st = (r, pending X, st')"
proof (induction tgt k j S st and tgt k js S st
       arbitrary: L n r S' st' and L n r S' st' rule: process_data_process_loop.induct)
  case (1 tgt k xs S st)
  let ?n1 = "n\<lparr>iterator := Some xs\<rparr>"
  have "set_iterator k xs S = L @ [?n1]" using 1 by simp
  from 1(1)[OF _ this 1(4), of r S' st'] 1(2) 1(5)
  show ?case by simp
next
  case (2 tgt k f s d S st)
  show ?case
  proof (cases "register_format f s tgt st")
    case (Pair y st1)
    show ?thesis
    proof (cases y)
      case (Some v)
      with Pair 2(2) have e: "r = Some v" "S' = S" "st' = st1" by auto
      from register_Some[OF Pair[unfolded Some]] obtain i where
        i: "f = Some i" "s = Some v" "tgt = Some i" "st i = None" "st1 = st(i \<mapsto> v)" by auto
      have "node_pending n = (i, v) # decls d"
        using 2(5) 2(6) i by (simp add: node_pending_def)
      moreover have "scan tgt (decls (Obj f s d)) st = (Some v, (i, v) # decls d, st1)"
        using i by simp
      ultimately show ?thesis using e 2(3) by (intro exI[of _ "[n]"]) simp
    next
      case None
      have sc: "scan tgt (decls (Obj f s d)) st = scan tgt (decls d) st1"
        using Pair None by (simp add: scan_register del: scan.simps)
      show ?thesis
      proof (cases "truthy d")
        case False
        with None Pair 2(2) 2(3) sc show ?thesis
          by (auto simp: pop_def not_truthy_decls)
      next
        case True
        let ?nc = "n\<lparr>completed := True\<rparr>"
        obtain r2 S2 st2 where c: "process_data tgt (length S) d
            (set_completed k (push S (wrap d))) st1 = (r2, S2, st2)"
          by (metis prod_cases3)
        have e: "set_completed k (push S (wrap d)) = (L @ [?nc]) @ [wrap d]"
          using 2(3) 2(4) by simp
        have "\<exists>X. S2 = (L @ [?nc]) @ X \<and> (r2 = None \<longrightarrow> X = [])
                \<and> scan tgt (decls d) st1 = (r2, pending X, st2)"
          using 2(1)[OF Pair[symmetric] None True c e] 2(3) by (simp add: wrap_def)
        then obtain X where X: "S2 = (L @ [?nc]) @ X" "r2 = None \<longrightarrow> X = []"
            "scan tgt (decls d) st1 = (r2, pending X, st2)"
          by blast
        have np: "node_pending ?nc = []" using 2(5) by (simp add: node_pending_def)
        show ?thesis
        proof (cases r2)
          case None
          with 2(2) Pair \<open>y = None\<close> True c X sc show ?thesis by (auto simp: pop_def)
        next
          case (Some v)
          with 2(2) Pair \<open>y = None\<close> True c X sc np show ?thesis
            by (intro exI[of _ "?nc # X"]) auto
        qed
      qed
    qed
  qed
next
  case (3 tgt k p S st)
  then show ?case by (simp add: pop_def)
next
  case (4 tgt k S st)
  then show ?case by (simp add: pop_def)
next
  case (5 tgt k item rest S st)
  let ?n1 = "n\<lparr>iterator := Some rest\<rparr>"
  have S1: "set_iterator k rest S = L @ [?n1]" using 5(5) 5(6) by simp
  have np: "node_pending ?n1 = decls_list rest" using 5(7) by (auto simp: node_pending_def)
  show ?case
  proof (cases "instanceof_Object item")
    case False
    have "process_loop tgt k rest (L @ [?n1]) st = (r, S', st')"
      using 5(4) False S1 by (simp add: Let_def)
    then show ?thesis
      using 5(3)[OF refl False _ _ 5(6), of r S' st' ?n1] S1 5(7) False
      by (simp add: not_Object_decls)
  next
    case True
    obtain r2 S2 st2 where c: "process_data tgt (length (set_iterator k rest S)) item
            (push (set_iterator k rest S) (wrap item)) st = (r2, S2, st2)"
      by (metis prod_cases3)
    have "\<exists>X. S2 = (L @ [?n1]) @ X \<and> (r2 = None \<longrightarrow> X = [])
             \<and> scan tgt (decls item) st = (r2, pending X, st2)"
      using 5(1)[OF refl True c, of "L @ [?n1]" "wrap item"] S1
      by (simp add: push_def wrap_def)
    then obtain X where X: "S2 = (L @ [?n1]) @ X" "r2 = None \<longrightarrow> X = []"
        "scan tgt (decls item) st = (r2, pending X, st2)"
      by blast
    show ?thesis
    proof (cases r2)
      case (Some v)
      with 5(4) True c X S1 np show ?thesis
        by (intro exI[of _ "?n1 # X"]) (auto simp: Let_def scan_append)
    next
      case None
      with X have S2: "S2 = L @ [?n1]" by simp
      have "process_loop tgt k rest S2 st2 = (r, S', st')"
        using 5(4) True c None by (simp add: Let_def)
      then have "\<exists>X. S' = L @ X \<and> (r = None \<longrightarrow> X = []) \<and>
          scan tgt (decls_list rest) st2 = (r, pending X, st')"
        using 5(2)[OF refl True _ None _ _ S2 5(6), of "(S2, st2)" st2 r S' st'] c None 5(7)
        by simp
      with X None show ?thesis by (auto simp: scan_append)
    qed
  qed
qed


lemma process_general:
  assumes "process tgt (L @ [n]) st = (r, S', st')"
  shows "\<exists>X. S' = L @ X \<and> (r = None \<longrightarrow> X = []) \<and> scan tgt (node_pending n) st = (r, pending X, st')"
proof (cases "data n")
  case (Prim p)
  with assms show ?thesis by (simp add: process_def pop_def Let_def node_pending_def)
next
  case (Arr xs)
  show ?thesis
  proof (cases "iterator n")
    case None
    let ?n1 = "n\<lparr>iterator := Some xs\<rparr>"
    from Arr None assms have "process_loop tgt (length L) xs (L @ [?n1]) st = (r, S', st')"
      by (simp add: process_def Let_def)
    from process_scan(2)[OF this refl refl] Arr None show ?thesis
      by (simp add: node_pending_def)
  next
    case (Some rest)
    with Arr assms have "process_loop tgt (length L) rest (L @ [n]) st = (r, S', st')"
      by (simp add: process_def Let_def)
    from process_scan(2)[OF this refl refl] Arr Some show ?thesis
      by (simp add: node_pending_def)
  qed
next
  case (Obj f s d)
  show ?thesis
  proof (cases "completed n")
    case True
    with Obj assms show ?thesis by (simp add: process_def pop_def Let_def node_pending_def)
  next
    case False
    with Obj assms have "process_data tgt (length L) (Obj f s d) (L @ [n]) st = (r, S', st')"
      by (simp add: process_def Let_def)
    from process_scan(1)[OF this refl refl Obj False] Obj False show ?thesis
      by (simp add: node_pending_def)
  qed
qed

lemma next_loop_scan:
  "next_loop tgt S st = (r, S', st')
     \<Longrightarrow> scan tgt (pending S) st = (r, pending S', st') \<and> (r = None \<longrightarrow> S' = [])"
proof (induction tgt S st arbitrary: r S' st' rule: next_loop.induct)
  case (1 tgt S st)
  show ?case
  proof (cases "S = []")
    case True
    with 1(2) show ?thesis by (simp add: next_loop.simps processableId_def)
  next
    case False
    then obtain L n where S: "S = L @ [n]" by (meson rev_exhaust)
    from False have pid: "\<not> processableId S < 0" by (simp add: processableId_def)
    obtain r1 S1 st1 where p: "process tgt S st = (r1, S1, st1)" by (metis prod_cases3)
    from process_general[OF p[unfolded S]] obtain X where
      X: "S1 = L @ X" "r1 = None \<longrightarrow> X = []" "scan tgt (node_pending n) st = (r1, pending X, st1)"
      by blast
    show ?thesis
    proof (cases r1)
      case (Some v)
      with 1(2) pid p have "r = Some v" "S' = S1" "st' = st1"
        by (simp_all add: next_loop.simps[of tgt S st])
      with X Some S show ?thesis by (simp add: scan_append)
    next
      case None
      with 1(2) pid p have "next_loop tgt S1 st1 = (r, S', st')"
        by (simp add: next_loop.simps[of tgt S st])
      from 1(1)[OF pid p[symmetric] None refl this] 
      have "scan tgt (pending S1) st1 = (r, pending S', st') \<and> (r = None \<longrightarrow> S' = [])" by simp
      with X None S show ?thesis by (simp add: scan_append)
    qed
  qed
qed


lemma map_add_upd_first:
  "st i = None \<Longrightarrow> map_of ds ++ st(i \<mapsto> v) = map_of ((i, v) # ds) ++ st"
  by (rule ext) (auto simp: map_add_def split: option.splits)

lemma map_add_skip_first:
  "st i = Some w \<Longrightarrow> map_of ((i, v) # ds) ++ st = map_of ds ++ st"
  by (rule ext) (auto simp: map_add_def split: option.splits)

lemma map_le_upd_fresh: "st i = None \<Longrightarrow> st \<subseteq>\<^sub>m st(i \<mapsto> v)"
  by (auto simp: map_le_def)

lemma map_le_map_add_right: "st \<subseteq>\<^sub>m m ++ st"
  by (auto simp: map_le_def map_add_def split: option.splits)

text \<open>What a scan leaves: the storage only grows, by first declarations; a scan that finds
  nothing has recorded them all, and a scan that finds a value has recorded it for the
  target, which was not held before.\<close>

definition scan_post ::
  "int option \<Rightarrow> (int \<times> 's) list \<Rightarrow> 's storage \<Rightarrow> 's option \<Rightarrow> 's storage \<Rightarrow> bool" where
  "scan_post tgt ds st r st' =
     (st \<subseteq>\<^sub>m st' \<and> st' \<subseteq>\<^sub>m map_of ds ++ st \<and>
      (r = None \<longrightarrow> st' = map_of ds ++ st \<and> (\<forall>t. tgt = Some t \<longrightarrow> st t = None \<longrightarrow> map_of ds t = None)) \<and>
      (\<forall>v. r = Some v \<longrightarrow> (\<exists>t. tgt = Some t \<and> st t = None \<and> map_of ds t = Some v \<and> st' t = Some v)))"

lemma scan_props: "scan tgt ds st = (r, rest, st') \<Longrightarrow> scan_post tgt ds st r st'"
proof (induction ds arbitrary: st)
  case Nil
  then show ?case by (auto simp: scan_post_def)
next
  case (Cons a ds)
  obtain i v where a: "a = (i, v)" by (cases a)
  show ?case
  proof (cases "st i")
    case None
    note eq = Cons.prems[unfolded a scan_Cons_None[of st i, OF None]]
    show ?thesis
    proof (cases "tgt = Some i")
      case True
      with eq have r: "r = Some v" and s: "st' = st(i \<mapsto> v)" by auto
      have 1: "st \<subseteq>\<^sub>m st'"
        unfolding s by (rule map_le_upd_fresh[of st i v, OF None])
      have 2: "st' \<subseteq>\<^sub>m map_of (a # ds) ++ st"
        unfolding s a map_add_upd_first[of st i ds v, OF None, symmetric] by (rule map_le_map_add_right)
      have 3: "r = None \<longrightarrow> st' = map_of (a # ds) ++ st \<and>
                 (\<forall>t. tgt = Some t \<longrightarrow> st t = None \<longrightarrow> map_of (a # ds) t = None)"
        using r by simp
      have "tgt = Some i \<and> st i = None \<and> map_of (a # ds) i = Some v \<and> st' i = Some v"
        using True None unfolding s a by simp
      then have 4: "\<forall>w. r = Some w \<longrightarrow>
           (\<exists>t. tgt = Some t \<and> st t = None \<and> map_of (a # ds) t = Some w \<and> st' t = Some w)"
        unfolding r by blast
      from 1 2 3 4 show ?thesis unfolding scan_post_def by (intro conjI)
    next
      case False
      with eq have "scan tgt ds (st(i \<mapsto> v)) = (r, rest, st')" by simp
      from Cons.IH[OF this] have ih: "scan_post tgt ds (st(i \<mapsto> v)) r st'" .
      have 1: "st \<subseteq>\<^sub>m st'"
        using ih map_le_upd_fresh[of st i v, OF None] by (auto simp: scan_post_def intro: map_le_trans)
      have 2: "st' \<subseteq>\<^sub>m map_of ((i, v) # ds) ++ st"
        using ih unfolding map_add_upd_first[of st i ds v, OF None, symmetric] by (simp add: scan_post_def)
      have 3: "r = None \<Longrightarrow> st' = map_of ((i, v) # ds) ++ st"
        using ih unfolding map_add_upd_first[of st i ds v, OF None, symmetric] by (simp add: scan_post_def)
      have 4: "r = None \<Longrightarrow> tgt = Some t \<Longrightarrow> st t = None \<Longrightarrow> map_of ((i, v) # ds) t = None" for t
        using ih False by (auto simp: scan_post_def)
      have 5: "r = Some w \<Longrightarrow> \<exists>t. tgt = Some t \<and> st t = None \<and> map_of ((i, v) # ds) t = Some w \<and> st' t = Some w" for w
        using ih False by (auto simp: scan_post_def split: if_splits)
      have 34: "r = None \<longrightarrow> st' = map_of ((i, v) # ds) ++ st \<and>
                 (\<forall>t. tgt = Some t \<longrightarrow> st t = None \<longrightarrow> map_of ((i, v) # ds) t = None)"
        using 3 4 by (intro impI conjI allI)
      have 55: "\<forall>w. r = Some w \<longrightarrow>
           (\<exists>t. tgt = Some t \<and> st t = None \<and> map_of ((i, v) # ds) t = Some w \<and> st' t = Some w)"
        using 5 by (intro impI allI)
      from 1 2 34 55 show ?thesis unfolding scan_post_def a by (intro conjI)
    qed
  next
    case (Some w)
    note eq = Cons.prems[unfolded a scan_Cons_Some[of st i, OF Some]]
    from Cons.IH[OF eq] have ih: "scan_post tgt ds st r st'" .
    have m: "map_of ((i, v) # ds) ++ st = map_of ds ++ st"
      by (rule map_add_skip_first[where st=st and i=i, OF Some])
    have k: "st t = None \<Longrightarrow> map_of ((i, v) # ds) t = map_of ds t" for t
      using Some by auto
    from ih have 1: "st \<subseteq>\<^sub>m st'" by (simp add: scan_post_def)
    from ih have 2: "st' \<subseteq>\<^sub>m map_of ((i, v) # ds) ++ st" unfolding m by (simp add: scan_post_def)
    have 34: "r = None \<longrightarrow> st' = map_of ((i, v) # ds) ++ st \<and>
                 (\<forall>t. tgt = Some t \<longrightarrow> st t = None \<longrightarrow> map_of ((i, v) # ds) t = None)"
    proof (intro impI conjI allI)
      assume "r = None"
      with ih show "st' = map_of ((i, v) # ds) ++ st" unfolding m by (simp add: scan_post_def)
    next
      fix t assume "r = None" "tgt = Some t" "st t = None"
      with ih have "map_of ds t = None" unfolding scan_post_def by blast
      with k[OF \<open>st t = None\<close>] show "map_of ((i, v) # ds) t = None" by (rule trans)
    qed
    have 55: "\<forall>w. r = Some w \<longrightarrow>
           (\<exists>t. tgt = Some t \<and> st t = None \<and> map_of ((i, v) # ds) t = Some w \<and> st' t = Some w)"
    proof (intro allI impI)
      fix w assume "r = Some w"
      with ih obtain t where t: "tgt = Some t" "st t = None" "map_of ds t = Some w" "st' t = Some w"
        unfolding scan_post_def by blast
      from k[OF t(2)] t(3) have "map_of ((i, v) # ds) t = Some w" by (rule trans)
      with t show "\<exists>t. tgt = Some t \<and> st t = None \<and> map_of ((i, v) # ds) t = Some w \<and> st' t = Some w"
        by (intro exI[of _ t] conjI)
    qed
    from 1 2 34 55 show ?thesis unfolding scan_post_def a by (intro conjI)
  qed
qed


section \<open>The engine as an object\<close>

text \<open>\<^verbatim>\<open>IResultGenerator\<close>: \<^verbatim>\<open>{value: result, done: false}\<close> is \<open>Yielded result\<close>,
  \<^verbatim>\<open>{value: undefined, done: true}\<close> is \<open>Exhausted\<close>; \<^verbatim>\<open>next\<close> builds no other.\<close>

datatype 's IResultGenerator = Yielded 's | Exhausted

record 's RecursiveIterator =
  stackNodes :: "'s RecursiveStack"

definition RecursiveIterator_new :: "'s json \<Rightarrow> 's RecursiveIterator" where
  "RecursiveIterator_new d = \<lparr>stackNodes = push [] (wrap d)\<rparr>"

definition RecursiveIterator_next ::
  "'s RecursiveIterator \<Rightarrow> 's storage \<Rightarrow> int option
     \<Rightarrow> 's IResultGenerator \<times> 's RecursiveIterator \<times> 's storage" where
  "RecursiveIterator_next g storage id' =
     (case next_loop id' (stackNodes g) storage of
        (Some result, S', storage') \<Rightarrow> (Yielded result, g\<lparr>stackNodes := S'\<rparr>, storage')
      | (None, S', storage') \<Rightarrow> (Exhausted, g\<lparr>stackNodes := S'\<rparr>, storage'))"

section \<open>SbisFormatController\<close>

text \<open>
  Field lists are JavaScript arrays, held by reference: the cache and the payload may hold
  the same array, and \<^verbatim>\<open>_clone\<close> (\<^verbatim>\<open>format.slice()\<close>) makes a new one. The heap is the list
  of all field lists allocated so far, an address is an index into it, and the type \<open>'fd\<close>
  of a field descriptor is left open. A payload's \<^verbatim>\<open>s\<close> is an address.
\<close>

type_synonym addr = nat
type_synonym 'fd heap = "'fd list list"

definition heap_get :: "'fd heap \<Rightarrow> addr \<Rightarrow> 'fd list" where
  "heap_get h a = (if a < length h then h ! a else [])"

definition clone :: "'fd heap \<Rightarrow> addr \<Rightarrow> addr \<times> 'fd heap" where
  "clone h format = (length h, h @ [heap_get h format])"

text \<open>\<^verbatim>\<open>throw new ReferenceError("Couldn't find format by id")\<close> (the spec's LookupError).\<close>

datatype error = ReferenceError

record SbisFormatController =
  ctl_cache :: "int \<rightharpoonup> addr"
  ctl_data :: "addr json"
  ctl_generator :: "addr RecursiveIterator option"

definition SbisFormatController_new :: "addr json \<Rightarrow> SbisFormatController" where
  "SbisFormatController_new d = \<lparr>ctl_cache = Map.empty, ctl_data = d, ctl_generator = None\<rparr>"

definition setOriginal ::
  "SbisFormatController \<Rightarrow> int \<Rightarrow> addr \<Rightarrow> 'fd heap \<Rightarrow> SbisFormatController \<times> 'fd heap" where
  "setOriginal c id' d h =
     (case clone h d of (a, h') \<Rightarrow> (c\<lparr>ctl_cache := (ctl_cache c)(id' \<mapsto> a)\<rparr>, h'))"

text \<open>The getter \<^verbatim>\<open>generator\<close>: the stored engine when there is one, a new engine on the
  bound data otherwise. It assigns nothing.\<close>

definition generator :: "SbisFormatController \<Rightarrow> addr RecursiveIterator" where
  "generator c =
     (case ctl_generator c of
        Some g \<Rightarrow> g
      | None \<Rightarrow> RecursiveIterator_new (ctl_data c))"

text \<open>
  \<^verbatim>\<open>getFormat(id, copy)\<close>. The result is the returned address or the error, the controller
  and the heap afterwards. The engine mutates the cache it is handed in place, so the cache
  is updated also when the call throws. The engine object itself is mutated too: that shows
  in the controller only if the engine is the stored one.
\<close>

definition getFormat ::
  "SbisFormatController \<Rightarrow> int \<Rightarrow> bool \<Rightarrow> 'fd heap
     \<Rightarrow> (error + addr) \<times> SbisFormatController \<times> 'fd heap" where
  "getFormat c id' copy h =
     (case ctl_cache c id' of
        Some a \<Rightarrow>
          if copy then (case clone h a of (a', h') \<Rightarrow> (Inr a', c, h')) else (Inr a, c, h)
      | None \<Rightarrow>
          (case RecursiveIterator_next (generator c) (ctl_cache c) (Some id') of
             (result, g', cache') \<Rightarrow>
               (let c' = c\<lparr>ctl_cache := cache',
                           ctl_generator := map_option (\<lambda>_. g') (ctl_generator c)\<rparr>
                in case result of
                     Exhausted \<Rightarrow> (Inl ReferenceError, c', h)
                   | Yielded a \<Rightarrow>
                       if copy then (case clone h a of (a', h') \<Rightarrow> (Inr a', c', h'))
                       else (Inr a, c', h))))"

definition scanFormats :: "SbisFormatController \<Rightarrow> addr json \<Rightarrow> SbisFormatController" where
  "scanFormats c d =
     (if typeof_object d
      then (case RecursiveIterator_next (RecursiveIterator_new d) (ctl_cache c) None of
              (result, g', cache') \<Rightarrow> c\<lparr>ctl_cache := cache'\<rparr>)
      else c)"

definition get_data :: "SbisFormatController \<Rightarrow> addr json" where
  "get_data c = ctl_data c"

text \<open>The structure an id is first declared with, in document order.\<close>

definition first_declaration :: "'s json \<Rightarrow> int \<Rightarrow> 's option" where
  "first_declaration p id' = map_of (decls p) id'"

lemma pending_wrap: "pending (push [] (wrap p)) = decls p"
  by (cases p) (simp_all add: push_def wrap_def node_pending_def)

lemma fresh_next:
  assumes "RecursiveIterator_next (RecursiveIterator_new p) st tgt = (res, g', st')"
  shows "scan_post tgt (decls p) st (case res of Yielded a \<Rightarrow> Some a | Exhausted \<Rightarrow> None) st'"
    and "res = Exhausted \<Longrightarrow> stackNodes g' = []"
proof -
  obtain r S' where n: "next_loop tgt (push [] (wrap p)) st = (r, S', st')"
    and res: "res = (case r of Some a \<Rightarrow> Yielded a | None \<Rightarrow> Exhausted)"
    and g': "stackNodes g' = S'"
    using assms
    by (cases "next_loop tgt (push [] (wrap p)) st")
       (auto simp: RecursiveIterator_next_def RecursiveIterator_new_def split: option.splits)
  from next_loop_scan[OF n] have sc: "scan tgt (decls p) st = (r, pending S', st')"
    and e: "r = None \<longrightarrow> S' = []"
    by (simp_all add: pending_wrap)
  from scan_props[OF sc] res
  show "scan_post tgt (decls p) st (case res of Yielded a \<Rightarrow> Some a | Exhausted \<Rightarrow> None) st'"
    by (cases r) simp_all
  show "res = Exhausted \<Longrightarrow> stackNodes g' = []"
    using res e g' by (cases r) simp_all
qed

text \<open>What a lookup finds: the cached entry, or else the first declaration in the bound data.\<close>

definition resolve :: "SbisFormatController \<Rightarrow> int \<Rightarrow> addr option" where
  "resolve c id' =
     (case ctl_cache c id' of
        Some a \<Rightarrow> Some a
      | None \<Rightarrow> first_declaration (ctl_data c) id')"

lemma resolve_map_add: "resolve c = map_of (decls (ctl_data c)) ++ ctl_cache c"
  by (rule ext) (simp add: resolve_def first_declaration_def map_add_def split: option.splits)


lemma cache_le_resolve: "ctl_cache c \<subseteq>\<^sub>m resolve c"
  unfolding resolve_map_add by (rule map_le_map_add_right)

lemma getFormat_hit:
  assumes "ctl_cache c i = Some a"
  shows "getFormat c i copy h =
           (if copy then (Inr (length h), c, h @ [heap_get h a]) else (Inr a, c, h))"
  using assms by (simp add: getFormat_def clone_def)

lemma getFormat_miss:
  assumes g: "ctl_generator c = None" and m: "ctl_cache c i = None"
    and e: "getFormat c i copy h = (res, c', h')"
  shows "\<exists>cache'. c' = c\<lparr>ctl_cache := cache'\<rparr> \<and> ctl_cache c \<subseteq>\<^sub>m cache' \<and> cache' \<subseteq>\<^sub>m resolve c \<and>
           (case first_declaration (ctl_data c) i of
              None \<Rightarrow> res = Inl ReferenceError \<and> h' = h \<and> cache' = resolve c
            | Some a \<Rightarrow> cache' i = Some a \<and>
                (if copy then res = Inr (length h) \<and> h' = h @ [heap_get h a]
                 else res = Inr a \<and> h' = h))"
proof -
  obtain result g' cache' where
    n: "RecursiveIterator_next (RecursiveIterator_new (ctl_data c)) (ctl_cache c) (Some i)
          = (result, g', cache')"
    by (metis prod_cases3)
  let ?r = "case result of Yielded a \<Rightarrow> Some a | Exhausted \<Rightarrow> None"
  from fresh_next(1)[OF n]
  have sp: "scan_post (Some i) (decls (ctl_data c)) (ctl_cache c) ?r cache'" .
  have c1: "c\<lparr>ctl_cache := cache', ctl_generator := None\<rparr> = c\<lparr>ctl_cache := cache'\<rparr>"
    using g by simp
  have le1: "ctl_cache c \<subseteq>\<^sub>m cache'" and le2: "cache' \<subseteq>\<^sub>m resolve c"
    using sp unfolding scan_post_def resolve_map_add by simp_all
  show ?thesis
  proof (cases result)
    case Exhausted
    with sp m have fd: "first_declaration (ctl_data c) i = None" and ce: "cache' = resolve c"
      unfolding scan_post_def resolve_map_add first_declaration_def by simp_all
    from e m g n Exhausted c1 have "res = Inl ReferenceError" "h' = h" "c' = c\<lparr>ctl_cache := cache'\<rparr>"
      by (auto simp: getFormat_def generator_def Let_def)
    with fd ce le1 le2 show ?thesis by (intro exI[of _ cache']) simp
  next
    case (Yielded a)
    with sp m have fd: "first_declaration (ctl_data c) i = Some a" and ca: "cache' i = Some a"
      unfolding scan_post_def first_declaration_def by simp_all
    from e m g n Yielded c1 have "c' = c\<lparr>ctl_cache := cache'\<rparr>"
      "if copy then res = Inr (length h) \<and> h' = h @ [heap_get h a] else res = Inr a \<and> h' = h"
      by (auto simp: getFormat_def generator_def clone_def Let_def split: if_splits)
    with fd ca le1 le2 show ?thesis by (intro exI[of _ cache']) simp
  qed
qed

lemma resolve_sandwich:
  assumes "ctl_cache c \<subseteq>\<^sub>m cache'" "cache' \<subseteq>\<^sub>m resolve c"
  shows "resolve (c\<lparr>ctl_cache := cache'\<rparr>) = resolve c"
proof (rule ext)
  fix k
  show "resolve (c\<lparr>ctl_cache := cache'\<rparr>) k = resolve c k"
  proof (cases "cache' k")
    case (Some a)
    with assms(2) have "resolve c k = Some a" by (auto simp: map_le_def dom_def)
    with Some show ?thesis by (simp add: resolve_def)
  next
    case None
    with assms(1) have "ctl_cache c k = None" by (auto simp: map_le_def dom_def)
    with None show ?thesis by (simp add: resolve_def)
  qed
qed

text \<open>What a lookup does on a controller whose engine field is unset.\<close>

lemma getFormat_spec:
  assumes g: "ctl_generator c = None" and e: "getFormat c i copy h = (res, c', h')"
  shows "ctl_data c' = ctl_data c" and "ctl_generator c' = None"
    and "ctl_cache c \<subseteq>\<^sub>m ctl_cache c'" and "ctl_cache c' \<subseteq>\<^sub>m resolve c"
    and "resolve c' = resolve c"
    and "resolve c i = None \<Longrightarrow> res = Inl ReferenceError \<and> h' = h \<and> ctl_cache c' = resolve c"
    and "resolve c i = Some a \<Longrightarrow> ctl_cache c' i = Some a \<and>
           (if copy then res = Inr (length h) \<and> h' = h @ [heap_get h a] else res = Inr a \<and> h' = h)"
proof -
  have "ctl_data c' = ctl_data c \<and> ctl_generator c' = None \<and>
        ctl_cache c \<subseteq>\<^sub>m ctl_cache c' \<and> ctl_cache c' \<subseteq>\<^sub>m resolve c \<and> resolve c' = resolve c \<and>
        (resolve c i = None \<longrightarrow> res = Inl ReferenceError \<and> h' = h \<and> ctl_cache c' = resolve c) \<and>
        (\<forall>a. resolve c i = Some a \<longrightarrow> ctl_cache c' i = Some a \<and>
           (if copy then res = Inr (length h) \<and> h' = h @ [heap_get h a] else res = Inr a \<and> h' = h))"
  proof (cases "ctl_cache c i")
    case (Some a)
    from e getFormat_hit[OF Some, of copy h]
    have "c' = c" "if copy then res = Inr (length h) \<and> h' = h @ [heap_get h a] else res = Inr a \<and> h' = h"
      by (simp_all split: if_splits)
    with Some g cache_le_resolve[of c] show ?thesis by (simp add: resolve_def)
  next
    case None
    from getFormat_miss[OF g None e] obtain cache' where
      c': "c' = c\<lparr>ctl_cache := cache'\<rparr>" and le: "ctl_cache c \<subseteq>\<^sub>m cache'" "cache' \<subseteq>\<^sub>m resolve c"
      and r: "case first_declaration (ctl_data c) i of
              None \<Rightarrow> res = Inl ReferenceError \<and> h' = h \<and> cache' = resolve c
            | Some a \<Rightarrow> cache' i = Some a \<and>
                (if copy then res = Inr (length h) \<and> h' = h @ [heap_get h a]
                 else res = Inr a \<and> h' = h)"
      by blast
    have ri: "resolve c i = first_declaration (ctl_data c) i" using None by (simp add: resolve_def)
    from resolve_sandwich[OF le] c' have rs: "resolve c' = resolve c" by simp
    show ?thesis
      using c' le r g rs unfolding ri by (simp split: option.splits)
  qed
  then show "ctl_data c' = ctl_data c" and "ctl_generator c' = None"
    and "ctl_cache c \<subseteq>\<^sub>m ctl_cache c'" and "ctl_cache c' \<subseteq>\<^sub>m resolve c"
    and "resolve c' = resolve c"
    and "resolve c i = None \<Longrightarrow> res = Inl ReferenceError \<and> h' = h \<and> ctl_cache c' = resolve c"
    and "resolve c i = Some a \<Longrightarrow> ctl_cache c' i = Some a \<and>
           (if copy then res = Inr (length h) \<and> h' = h @ [heap_get h a] else res = Inr a \<and> h' = h)"
    by blast+
qed


section \<open>Sequences of calls\<close>

text \<open>A controller in use: any sequence of the three public calls. A caller that catches
  the error of a failed lookup goes on with the controller as the call left it.\<close>

datatype call = GetFormat int bool | SetOriginal int addr | ScanFormats "addr json"

fun run_call :: "SbisFormatController \<times> 'fd heap \<Rightarrow> call \<Rightarrow> SbisFormatController \<times> 'fd heap" where
  "run_call (c, h) (GetFormat i copy) = snd (getFormat c i copy h)"
| "run_call (c, h) (SetOriginal i d) = setOriginal c i d h"
| "run_call (c, h) (ScanFormats d) = (scanFormats c d, h)"

definition run_calls ::
  "SbisFormatController \<times> 'fd heap \<Rightarrow> call list \<Rightarrow> SbisFormatController \<times> 'fd heap" where
  "run_calls s calls = foldl run_call s calls"

text \<open>What a call may change: the cache and the engine field of the controller; the heap
  may grow.\<close>

definition frame :: "SbisFormatController \<times> 'fd heap \<Rightarrow> SbisFormatController \<times> 'fd heap \<Rightarrow> bool" where
  "frame s s' =
     (fst s' = (fst s)\<lparr>ctl_cache := ctl_cache (fst s'), ctl_generator := ctl_generator (fst s')\<rparr> \<and>
      take (length (snd s)) (snd s') = snd s)"

lemma frame_refl: "frame s s"
  by (simp add: frame_def)

lemma frame_trans: "frame s s' \<Longrightarrow> frame s' s'' \<Longrightarrow> frame s s''"
proof -
  assume a: "frame s s'" and b: "frame s' s''"
  from a have 1: "take (length (snd s)) (snd s') = snd s" by (simp add: frame_def)
  from b have 2: "take (length (snd s')) (snd s'') = snd s'" by (simp add: frame_def)
  from 1 have l: "length (snd s) \<le> length (snd s')"
    by (metis length_take min.cobounded1 min.commute)
  have "take (length (snd s)) (snd s'') = take (length (snd s)) (take (length (snd s')) (snd s''))"
    using l by (simp add: min_def)
  with 1 2 have h: "take (length (snd s)) (snd s'') = snd s" by simp
  from a have 3: "fst s' = (fst s)\<lparr>ctl_cache := ctl_cache (fst s'), ctl_generator := ctl_generator (fst s')\<rparr>"
    by (simp add: frame_def)
  from b have 4: "fst s'' = (fst s')\<lparr>ctl_cache := ctl_cache (fst s''), ctl_generator := ctl_generator (fst s'')\<rparr>"
    by (simp add: frame_def)
  have "fst s'' = (fst s)\<lparr>ctl_cache := ctl_cache (fst s''), ctl_generator := ctl_generator (fst s'')\<rparr>"
    by (subst 4, subst 3) simp
  with h show ?thesis by (simp add: frame_def)
qed

lemma getFormat_frame: "frame (c, h) (snd (getFormat c i copy h))"
  by (auto simp: getFormat_def frame_def clone_def Let_def
           split: option.splits prod.splits IResultGenerator.splits)

lemma setOriginal_frame: "frame (c, h) (setOriginal c i d h)"
  by (simp add: setOriginal_def frame_def clone_def)

lemma scanFormats_frame: "frame (c, h) (scanFormats c d, h)"
  by (auto simp: scanFormats_def frame_def split: prod.splits)

lemma run_call_frame: "frame s (run_call s x)"
  by (cases s; cases x) (simp_all add: getFormat_frame setOriginal_frame scanFormats_frame)

lemma run_calls_frame: "frame s (run_calls s calls)"
  unfolding run_calls_def
proof (induction calls arbitrary: s)
  case Nil
  show ?case by (simp add: frame_refl)
next
  case (Cons x xs)
  from frame_trans[OF run_call_frame[of s x] Cons.IH[of "run_call s x"]]
  show ?case by simp
qed

lemma getFormat_generator_None:
  "ctl_generator c = None \<Longrightarrow> ctl_generator (fst (snd (getFormat c i copy h))) = None"
  by (auto simp: getFormat_def clone_def Let_def
           split: option.splits prod.splits IResultGenerator.splits)

lemma run_call_generator_None:
  "ctl_generator (fst s) = None \<Longrightarrow> ctl_generator (fst (run_call s x)) = None"
  by (cases s; cases x)
     (auto simp: getFormat_generator_None setOriginal_def clone_def scanFormats_def split: prod.splits)

lemma run_calls_generator_None:
  "ctl_generator (fst s) = None \<Longrightarrow> ctl_generator (fst (run_calls s calls)) = None"
  unfolding run_calls_def
  by (induction calls arbitrary: s) (simp_all add: run_call_generator_None)


section \<open>The spec's scenario\<close>

text \<open>\<^verbatim>\<open>[{f:1, s:[{n:'id'}], d:[{f:2, s:[{n:'x'}]}, {f:1}]}]\<close>, with the two field lists at
  addresses 0 and 1.\<close>

definition example_heap :: "string heap" where
  "example_heap = [[''id''], [''x'']]"

definition example_payload :: "addr json" where
  "example_payload =
     Arr [Obj (Some 1) (Some 0)
            (Arr [Obj (Some 2) (Some 1) (Prim PUndefined),
                  Obj (Some 1) None (Prim PUndefined)])]"

lemmas engine_eval =
  RecursiveIterator_next_def RecursiveIterator_new_def next_loop.simps processableId_def
  process_def push_def pop_def wrap_def currentNode_def set_iterator_def set_completed_def
  register_format_def Let_def

lemmas controller_eval =
  getFormat_def generator_def SbisFormatController_new_def scanFormats_def setOriginal_def
  clone_def heap_get_def get_data_def

section \<open>The claims\<close>

text \<open>
  C3 (the engine instance is created lazily and then reused): at the spec's own scenario the
  engine that served the first lookup stopped with two wrappers on its stack (the root array
  with its cursor advanced, and the node that was found), but the controller did not keep
  it: its engine field is still unset, and the next cache-missing lookup gets a new engine
  whose stack holds the untouched root wrapper only.
\<close>

theorem C3_generator_not_kept:
  "(case RecursiveIterator_next (generator (SbisFormatController_new example_payload))
           Map.empty (Some 1) of
      (res, g', cache') \<Rightarrow>
        res = Yielded 0 \<and> length (stackNodes g') = 2 \<and>
        (case getFormat (SbisFormatController_new example_payload) 1 False example_heap of
           (r1, c1, h1) \<Rightarrow>
             r1 = Inr 0 \<and> ctl_generator c1 = None \<and>
             generator c1 = RecursiveIterator_new example_payload \<and>
             generator c1 \<noteq> g'))"
  by (simp add: engine_eval controller_eval example_payload_def)

text \<open>
  C8 (lookups, scans and seeding never modify the bound payload): after any sequence of
  getFormat, scanFormats and setOriginal calls the controller differs from the one before
  in its cache and engine fields only, so its data is the same payload, and every field
  list that existed before still has its content (the heap only grows, by the clones).
\<close>

theorem C8_payload_never_modified:
  "(case run_calls (c, h) calls of
      (c', h') \<Rightarrow>
        get_data c' = get_data c \<and>
        take (length h) h' = h \<and>
        c' = c\<lparr>ctl_cache := ctl_cache c', ctl_generator := ctl_generator c'\<rparr>)"
proof -
  obtain c' h' where r: "run_calls (c, h) calls = (c', h')" by (cases "run_calls (c, h) calls")
  from run_calls_frame[of "(c, h)" calls] r
  have f: "c' = c\<lparr>ctl_cache := ctl_cache c', ctl_generator := ctl_generator c'\<rparr>"
    and t: "take (length h) h' = h"
    by (simp_all add: frame_def)
  have "ctl_data c' = ctl_data c" by (subst f) simp
  with f t r show ?thesis by (simp add: get_data_def)
qed

theorem C8_payload_never_modified_witness:
  "(case run_calls (SbisFormatController_new example_payload, example_heap)
           [GetFormat 2 True, SetOriginal 7 0, ScanFormats example_payload, GetFormat 3 False] of
      (c', h') \<Rightarrow>
        get_data c' = example_payload \<and>
        take (length example_heap) h' = example_heap)"
  using C8_payload_never_modified[of "SbisFormatController_new example_payload" example_heap
          "[GetFormat 2 True, SetOriginal 7 0, ScanFormats example_payload, GetFormat 3 False]"]
  by (simp add: SbisFormatController_new_def get_data_def split: prod.splits)

text \<open>
  The ids a payload declares (the \<^verbatim>\<open>f\<close> of its carriers with an inline \<^verbatim>\<open>s\<close>), the field
  list a lookup hands to its caller (the content of the returned reference in the heap the
  call leaves), and a sequence of lookups as a sequence of calls.
\<close>

definition ids :: "'s json \<Rightarrow> int set" where
  "ids p = fst ` set (decls p)"

definition returned_list ::
  "(error + addr) \<times> SbisFormatController \<times> 'fd heap \<Rightarrow> error + 'fd list" where
  "returned_list r =
     (case r of
        (Inl e, c, h) \<Rightarrow> Inl e
      | (Inr a, c, h) \<Rightarrow> Inr (heap_get h a))"

definition lookups :: "(int \<times> bool) list \<Rightarrow> call list" where
  "lookups qs = map (\<lambda>(i, copy). GetFormat i copy) qs"

lemma first_declaration_None: "first_declaration p N = None \<longleftrightarrow> N \<notin> ids p"
  by (simp add: first_declaration_def ids_def map_of_eq_None_iff)

lemma first_declaration_split:
  "decls p = pre @ (N, s) # post \<Longrightarrow> N \<notin> fst ` set pre \<Longrightarrow> first_declaration p N = Some s"
  by (simp add: first_declaration_def map_add_def map_of_eq_None_iff[symmetric] split: option.splits)

lemma resolve_new: "resolve (SbisFormatController_new p) = first_declaration p"
  by (rule ext) (simp add: resolve_def SbisFormatController_new_def)

lemma getFormat_result:
  assumes "ctl_generator c = None"
  shows "fst (getFormat c i False h) = (case resolve c i of None \<Rightarrow> Inl ReferenceError | Some a \<Rightarrow> Inr a)"
proof -
  obtain res c' h' where e: "getFormat c i False h = (res, c', h')" by (metis prod_cases3)
  show ?thesis
  proof (cases "resolve c i")
    case None
    from getFormat_spec(6)[OF assms e None] e None show ?thesis by simp
  next
    case (Some a)
    from getFormat_spec(7)[OF assms e Some] e Some show ?thesis by simp
  qed
qed

lemma heap_get_snoc: "heap_get (h @ [x]) (length h) = x"
  by (simp add: heap_get_def)

lemma getFormat_returned_list:
  assumes "ctl_generator c = None"
  shows "returned_list (getFormat c i copy h) =
           (case resolve c i of None \<Rightarrow> Inl ReferenceError | Some a \<Rightarrow> Inr (heap_get h a))"
proof -
  obtain res c' h' where e: "getFormat c i copy h = (res, c', h')" by (metis prod_cases3)
  show ?thesis
  proof (cases "resolve c i")
    case None
    from getFormat_spec(6)[OF assms e None] e None show ?thesis by (simp add: returned_list_def)
  next
    case (Some a)
    from getFormat_spec(7)[OF assms e Some] e Some show ?thesis
      by (cases copy) (simp_all add: returned_list_def heap_get_snoc)
  qed
qed

lemma getFormat_from_cache:
  assumes "ctl_cache c N = Some a"
  shows "getFormat c N False h = (Inr a, c, h)"
    and "fst (getFormat c N copy h) \<noteq> Inl ReferenceError"
  by (simp_all add: getFormat_hit[OF assms])

text \<open>The state after a sequence of calls on a new controller.\<close>

lemma run_calls_new:
  assumes "run_calls (SbisFormatController_new p, h0) calls = (c, h)"
  shows "ctl_data c = p" and "ctl_generator c = None"
proof -
  from run_calls_frame[of "(SbisFormatController_new p, h0)" calls] assms
  have "c = (SbisFormatController_new p)\<lparr>ctl_cache := ctl_cache c, ctl_generator := ctl_generator c\<rparr>"
    by (simp add: frame_def)
  then have "ctl_data c = ctl_data (SbisFormatController_new p)"
    by (metis SbisFormatController.select_convs(2) SbisFormatController.surjective
        SbisFormatController.update_convs(1) SbisFormatController.update_convs(3))
  then show "ctl_data c = p" by (simp add: SbisFormatController_new_def)
  from run_calls_generator_None[of "(SbisFormatController_new p, h0)" calls] assms
  show "ctl_generator c = None" by (simp add: SbisFormatController_new_def)
qed

lemma run_lookups_resolve:
  "ctl_generator (fst s) = None \<Longrightarrow>
     resolve (fst (run_calls s (lookups qs))) = resolve (fst s) \<and>
     ctl_generator (fst (run_calls s (lookups qs))) = None \<and>
     ctl_cache (fst s) \<subseteq>\<^sub>m ctl_cache (fst (run_calls s (lookups qs)))"
  unfolding run_calls_def lookups_def
proof (induction qs arbitrary: s)
  case Nil
  then show ?case by simp
next
  case (Cons q qs)
  obtain c h where s: "s = (c, h)" by (cases s)
  obtain i copy where q: "q = (i, copy)" by (cases q)
  obtain res c' h' where e: "getFormat c i copy h = (res, c', h')" by (metis prod_cases3)
  from Cons.prems s have g: "ctl_generator c = None" by simp
  from getFormat_spec(2)[OF g e] getFormat_spec(5)[OF g e] getFormat_spec(3)[OF g e]
  have 1: "ctl_generator c' = None" "resolve c' = resolve c" "ctl_cache c \<subseteq>\<^sub>m ctl_cache c'"
    by simp_all
  from Cons.IH[of "(c', h')"] 1 show ?case
    by (auto simp: s q e intro: map_le_trans)
qed


lemma map_add_left_Some: "m1 N \<noteq> None \<Longrightarrow> \<exists>a. (m1 ++ m2) N = Some a"
  by (cases "m2 N") (auto simp: map_add_def)

lemma scanFormats_cache: "ctl_cache (scanFormats c p) = map_of (decls p) ++ ctl_cache c"
proof (cases "typeof_object p")
  case False
  then have "decls p = []" by (cases p) auto
  with False show ?thesis by (simp add: scanFormats_def)
next
  case True
  obtain res g' st' where
    n: "RecursiveIterator_next (RecursiveIterator_new p) (ctl_cache c) None = (res, g', st')"
    by (metis prod_cases3)
  from fresh_next(1)[OF n]
  have "st' = map_of (decls p) ++ ctl_cache c"
    by (cases res) (auto simp: scan_post_def)
  with True n show ?thesis by (simp add: scanFormats_def)
qed

text \<open>
  C1 (first declaration wins): on a controller bound to a payload and used for any lookups
  \<open>qs\<close> before, a lookup of an id \<open>N\<close> returns the structure \<open>s\<close> of the declaration of \<open>N\<close> that
  comes first in document order (no declaration of \<open>N\<close> among those before it), whatever is
  declared for \<open>N\<close> later; the cache then holds \<open>s\<close> for \<open>N\<close>, and after any further lookups
  \<open>qs'\<close> it still does and the lookup still returns \<open>s\<close>.
\<close>

theorem C1_first_declaration_wins:
  assumes "decls p = pre @ (N, s) # post" and "N \<notin> fst ` set pre"
  shows "(case run_calls (SbisFormatController_new p, h) (lookups qs) of
            (c, h1) \<Rightarrow>
              (case getFormat c N False h1 of
                 (res, c', h2) \<Rightarrow>
                   res = Inr s \<and> ctl_cache c' N = Some s \<and>
                   (case run_calls (c', h2) (lookups qs') of
                      (c'', h3) \<Rightarrow>
                        ctl_cache c'' N = Some s \<and> fst (getFormat c'' N False h3) = Inr s)))"
proof -
  obtain c h1 where r1: "run_calls (SbisFormatController_new p, h) (lookups qs) = (c, h1)"
    by (cases "run_calls (SbisFormatController_new p, h) (lookups qs)")
  obtain res c' h2 where e: "getFormat c N False h1 = (res, c', h2)" by (metis prod_cases3)
  obtain c'' h3 where r2: "run_calls (c', h2) (lookups qs') = (c'', h3)"
    by (cases "run_calls (c', h2) (lookups qs')")
  from run_lookups_resolve[of "(SbisFormatController_new p, h)" qs] r1
  have g: "ctl_generator c = None" and rs: "resolve c = first_declaration p"
    by (simp_all add: SbisFormatController_new_def resolve_new[unfolded SbisFormatController_new_def])
  from rs first_declaration_split[OF assms] have rN: "resolve c N = Some s" by simp
  from getFormat_spec(7)[OF g e rN] have 1: "res = Inr s" "ctl_cache c' N = Some s" by simp_all
  from getFormat_spec(2)[OF g e] have g': "ctl_generator c' = None" .
  from run_lookups_resolve[of "(c', h2)" qs'] r2 g'
  have "ctl_cache c' \<subseteq>\<^sub>m ctl_cache c''" by simp
  with 1(2) have 2: "ctl_cache c'' N = Some s" by (auto simp: map_le_def dom_def)
  from getFormat_from_cache(1)[OF 2, of h3] have 3: "fst (getFormat c'' N False h3) = Inr s" by simp
  from 1 2 3 show ?thesis by (simp add: r1 e r2)
qed

text \<open>\<^verbatim>\<open>[{f:1, s:[{n:'id'}], d:[{f:2, s:[{n:'x'}]}, {f:1, s:[{n:'other'}]}]}]\<close>: the id 1 is
  declared twice, with different field lists.\<close>

definition duplicate_payload :: "addr json" where
  "duplicate_payload =
     Arr [Obj (Some 1) (Some 0)
            (Arr [Obj (Some 2) (Some 1) (Prim PUndefined),
                  Obj (Some 1) (Some 2) (Prim PUndefined)])]"

definition duplicate_heap :: "string heap" where
  "duplicate_heap = [[''id''], [''x''], [''other'']]"

theorem C1_first_declaration_wins_witness:
  "(case run_calls (SbisFormatController_new duplicate_payload, duplicate_heap) (lookups [(2, False)]) of
      (c, h1) \<Rightarrow>
        (case getFormat c 1 False h1 of
           (res, c', h2) \<Rightarrow>
             res = Inr 0 \<and> ctl_cache c' 1 = Some 0 \<and>
             (case run_calls (c', h2) (lookups [(1, True), (3, False)]) of
                (c'', h3) \<Rightarrow>
                  ctl_cache c'' 1 = Some 0 \<and> fst (getFormat c'' 1 False h3) = Inr 0)))"
  using C1_first_declaration_wins[where p = duplicate_payload and pre = "[]" and N = 1 and s = 0
          and post = "[(2, 1), (1, 2)]" and h = duplicate_heap and qs = "[(2, False)]"
          and qs' = "[(1, True), (3, False)]"]
  by (simp add: duplicate_payload_def)

text \<open>
  C2 (an earlier lookup does not change a later one): on a new controller, a lookup of \<open>A\<close>
  followed by a lookup of \<open>B\<close> gives for \<open>B\<close> the same reference, or the same error, as a
  lookup of \<open>B\<close> on a new controller bound to the same payload; and when the payload's
  structures are allocated field lists, the list returned for \<open>B\<close> has the same content in
  both runs, with or without \<open>copy\<close>.
\<close>

theorem C2_earlier_lookup_irrelevant:
  "(case getFormat (SbisFormatController_new p) A copyA h of
      (rA, c1, h1) \<Rightarrow>
        fst (getFormat c1 B False h1) = fst (getFormat (SbisFormatController_new p) B False h) \<and>
        (list_all (\<lambda>(i, a). a < length h) (decls p) \<longrightarrow>
           returned_list (getFormat c1 B copyB h1) =
           returned_list (getFormat (SbisFormatController_new p) B copyB h)))"
proof -
  let ?n = "SbisFormatController_new p"
  obtain rA c1 h1 where e: "getFormat ?n A copyA h = (rA, c1, h1)" by (metis prod_cases3)
  have g: "ctl_generator ?n = None" by (simp add: SbisFormatController_new_def)
  from getFormat_spec(2)[OF g e] have g1: "ctl_generator c1 = None" .
  from getFormat_spec(5)[OF g e] have rs: "resolve c1 = resolve ?n" .
  have 1: "fst (getFormat c1 B False h1) = fst (getFormat ?n B False h)"
    by (simp add: getFormat_result[OF g1] getFormat_result[OF g] rs)
  have 2: "returned_list (getFormat c1 B copyB h1) = returned_list (getFormat ?n B copyB h)"
    if ok: "list_all (\<lambda>(i, a). a < length h) (decls p)"
  proof (cases "resolve ?n B")
    case None
    then show ?thesis
      by (simp add: getFormat_returned_list[OF g1] getFormat_returned_list[OF g] rs)
  next
    case (Some a)
    then have "(B, a) \<in> set (decls p)"
      by (simp add: resolve_new first_declaration_def map_of_SomeD)
    with ok have a: "a < length h" by (auto simp: list_all_iff)
    have "h1 = h \<or> (\<exists>x. h1 = h @ [x])"
    proof (cases "resolve ?n A")
      case None
      from getFormat_spec(6)[OF g e None] show ?thesis by simp
    next
      case (Some b)
      from getFormat_spec(7)[OF g e Some] show ?thesis by (cases copyA) simp_all
    qed
    with a have "heap_get h1 a = heap_get h a"
      by (auto simp: heap_get_def nth_append)
    with Some show ?thesis
      by (simp add: getFormat_returned_list[OF g1] getFormat_returned_list[OF g] rs)
  qed
  from 1 2 show ?thesis by (simp add: e)
qed

theorem C2_earlier_lookup_irrelevant_witness:
  "(case getFormat (SbisFormatController_new example_payload) 1 True example_heap of
      (rA, c1, h1) \<Rightarrow>
        fst (getFormat c1 2 False h1) = fst (getFormat (SbisFormatController_new example_payload) 2 False example_heap) \<and>
        list_all (\<lambda>(i, a). a < length example_heap) (decls example_payload) \<and>
        returned_list (getFormat c1 2 True h1) =
          returned_list (getFormat (SbisFormatController_new example_payload) 2 True example_heap))"
  using C2_earlier_lookup_irrelevant[where p = example_payload and A = 1 and copyA = True
          and h = example_heap and B = 2 and copyB = True]
  by (simp add: example_payload_def example_heap_def split: prod.splits)

text \<open>
  C6 (an eager scan fills the cache): \<^verbatim>\<open>scanFormats\<close> runs one engine over the whole payload
  with no target, so afterwards the cache holds what it held before and, for every other id
  declared in the payload, the first declaration. A lookup of an id declared in the scanned
  payload then never fails, and it is answered from the cache: the result and the
  controller are the same whatever data the controller is bound to and whatever engine it
  holds.
\<close>

theorem C6_scan_fills_cache:
  assumes "N \<in> ids p"
  shows "ctl_cache (scanFormats c p) = map_of (decls p) ++ ctl_cache c \<and>
         (\<exists>a. ctl_cache (scanFormats c p) N = Some a \<and>
              (\<forall>(h :: 'fd heap) d g.
                  getFormat ((scanFormats c p)\<lparr>ctl_data := d, ctl_generator := g\<rparr>) N False h =
                    (Inr a, (scanFormats c p)\<lparr>ctl_data := d, ctl_generator := g\<rparr>, h)) \<and>
              (\<forall>(h :: 'fd heap) copy. fst (getFormat (scanFormats c p) N copy h) \<noteq> Inl ReferenceError))"
proof -
  let ?c = "scanFormats c p"
  have 1: "ctl_cache ?c = map_of (decls p) ++ ctl_cache c" by (rule scanFormats_cache)
  from assms have "map_of (decls p) N \<noteq> None"
    by (simp add: ids_def map_of_eq_None_iff)
  from map_add_left_Some[of "map_of (decls p)" N "ctl_cache c", OF this]
  obtain a where "(map_of (decls p) ++ ctl_cache c) N = Some a" by (elim exE)
  then have a: "ctl_cache ?c N = Some a" unfolding 1 .
  have 2: "getFormat (?c\<lparr>ctl_data := d, ctl_generator := g\<rparr>) N False h =
           (Inr a, ?c\<lparr>ctl_data := d, ctl_generator := g\<rparr>, h)" for h :: "'fd heap" and d g
    using a by (intro getFormat_from_cache(1)) simp
  have 3: "fst (getFormat ?c N copy h) \<noteq> Inl ReferenceError" for h :: "'fd heap" and copy
    by (rule getFormat_from_cache(2)[OF a])
  from 1 a 2 3 show ?thesis by blast
qed

theorem C6_scan_fills_cache_witness:
  "2 \<in> ids example_payload \<and>
   ctl_cache (scanFormats (SbisFormatController_new (Prim PUndefined)) example_payload) 2 = Some 1 \<and>
   fst (getFormat (scanFormats (SbisFormatController_new (Prim PUndefined)) example_payload) 2 True example_heap)
     \<noteq> Inl ReferenceError"
proof -
  let ?c = "scanFormats (SbisFormatController_new (Prim PUndefined)) example_payload"
  have i: "2 \<in> ids example_payload" by (simp add: ids_def example_payload_def)
  note t = C6_scan_fills_cache[OF i, of "SbisFormatController_new (Prim PUndefined)"]
  from t have eq: "ctl_cache ?c =
      map_of (decls example_payload) ++ ctl_cache (SbisFormatController_new (Prim PUndefined))"
    by blast
  from t have n: "fst (getFormat ?c 2 True example_heap) \<noteq> Inl ReferenceError"
    by blast
  have "ctl_cache ?c 2 = Some 1"
    unfolding eq by (simp add: example_payload_def SbisFormatController_new_def map_add_def)
  with i n show ?thesis by simp
qed

text \<open>
  C10 (a failed lookup leaves the cache filled): on a controller reached from a new one by
  any calls, a lookup that fails has run the traversal to its end; the cache keeps all it
  held and now holds an entry for every id declared in the bound payload, so a later lookup
  of such an id is answered from the cache, leaving the controller as it is.
\<close>

theorem C10_cache_kept_after_failure:
  assumes "run_calls (SbisFormatController_new p, h0) calls = (c, h)"
    and "getFormat c i copy h = (Inl ReferenceError, c', h')"
    and "N \<in> ids p"
  shows "ctl_cache c \<subseteq>\<^sub>m ctl_cache c' \<and>
         (\<exists>a. ctl_cache c' N = Some a \<and> getFormat c' N False h' = (Inr a, c', h'))"
proof -
  from run_calls_new[OF assms(1)] have d: "ctl_data c = p" and g: "ctl_generator c = None" .
  have rn: "resolve c i = None"
  proof (cases "resolve c i")
    case (Some a)
    from getFormat_spec(7)[OF g assms(2) Some] show ?thesis by (cases copy) simp_all
  qed simp
  from getFormat_spec(6)[OF g assms(2) rn] have "ctl_cache c' = resolve c" by simp
  then have cc: "ctl_cache c' = map_of (decls p) ++ ctl_cache c" by (simp add: resolve_map_add d)
  from assms(3) have "map_of (decls p) N \<noteq> None" by (simp add: ids_def map_of_eq_None_iff)
  from map_add_left_Some[of "map_of (decls p)" N "ctl_cache c", OF this]
  obtain a where "(map_of (decls p) ++ ctl_cache c) N = Some a" by (elim exE)
  then have a: "ctl_cache c' N = Some a" unfolding cc .
  from getFormat_spec(3)[OF g assms(2)] a getFormat_from_cache(1)[OF a, of h']
  show ?thesis by blast
qed

theorem C10_cache_kept_after_failure_witness:
  "run_calls (SbisFormatController_new example_payload, example_heap) [] =
     (SbisFormatController_new example_payload, example_heap) \<and>
   (\<exists>c'. getFormat (SbisFormatController_new example_payload) 3 False example_heap =
            (Inl ReferenceError, c', example_heap) \<and>
         ctl_cache c' 2 = Some 1 \<and> getFormat c' 2 False example_heap = (Inr 1, c', example_heap)) \<and>
   2 \<in> ids example_payload"
proof -
  let ?n = "SbisFormatController_new example_payload"
  obtain r c' h' where e: "getFormat ?n 3 False example_heap = (r, c', h')" by (metis prod_cases3)
  have 1: "run_calls (?n, example_heap) [] = (?n, example_heap)" by (simp add: run_calls_def)
  have 2: "r = Inl ReferenceError" "h' = example_heap" "ctl_cache c' 2 = Some 1"
    using e by (auto simp: engine_eval controller_eval example_payload_def)
  have 3: "2 \<in> ids example_payload" by (simp add: ids_def example_payload_def)
  from C10_cache_kept_after_failure[OF 1 e[unfolded 2(1)] 3] 2 e 1 3
  show ?thesis by auto
qed

text \<open>The ids a sequence of calls has seeded with \<^verbatim>\<open>setOriginal\<close>, and the ids declared in the
  payloads it has handed to \<^verbatim>\<open>scanFormats\<close>.\<close>

fun seeded :: "call list \<Rightarrow> int set" where
  "seeded [] = {}"
| "seeded (SetOriginal i d # calls) = insert i (seeded calls)"
| "seeded (x # calls) = seeded calls"

fun scanned :: "call list \<Rightarrow> int set" where
  "scanned [] = {}"
| "scanned (ScanFormats d # calls) = ids d \<union> scanned calls"
| "scanned (x # calls) = scanned calls"

lemma dom_resolve: "dom (resolve c) = ids (ctl_data c) \<union> dom (ctl_cache c)"
  by (simp add: resolve_map_add ids_def dom_map_of_conv_image_fst Un_commute)

lemma getFormat_fails_iff:
  assumes "ctl_generator c = None"
  shows "fst (getFormat c N copy h) = Inl ReferenceError \<longleftrightarrow> resolve c N = None"
proof -
  obtain res c' h' where e: "getFormat c N copy h = (res, c', h')" by (metis prod_cases3)
  show ?thesis
  proof (cases "resolve c N")
    case None
    from getFormat_spec(6)[OF assms e None] e None show ?thesis by simp
  next
    case (Some a)
    from getFormat_spec(7)[OF assms e Some] e Some show ?thesis by (cases copy) simp_all
  qed
qed

lemma run_call_dom_resolve:
  assumes "ctl_generator (fst s) = None"
  shows "dom (resolve (fst (run_call s x))) = dom (resolve (fst s)) \<union> seeded [x] \<union> scanned [x]"
proof -
  obtain c h where s: "s = (c, h)" by (cases s)
  from assms s have g: "ctl_generator c = None" by simp
  show ?thesis
  proof (cases x)
    case (GetFormat i copy)
    obtain res c' h' where e: "getFormat c i copy h = (res, c', h')" by (metis prod_cases3)
    from getFormat_spec(5)[OF g e] show ?thesis by (simp add: s GetFormat e)
  next
    case (SetOriginal i d)
    have "ctl_data (fst (setOriginal c i d h)) = ctl_data c"
      "ctl_cache (fst (setOriginal c i d h)) = (ctl_cache c)(i \<mapsto> length h)"
      by (simp_all add: setOriginal_def clone_def)
    then show ?thesis by (simp add: s SetOriginal dom_resolve)
  next
    case (ScanFormats d)
    have "ctl_data (scanFormats c d) = ctl_data c"
      by (auto simp: scanFormats_def split: prod.splits)
    then show ?thesis
      by (auto simp: s ScanFormats dom_resolve scanFormats_cache ids_def dom_map_of_conv_image_fst)
  qed
qed

lemma seeded_Cons: "seeded (x # calls) = seeded [x] \<union> seeded calls"
  by (cases x) simp_all

lemma scanned_Cons: "scanned (x # calls) = scanned [x] \<union> scanned calls"
  by (cases x) simp_all

lemma run_calls_dom_resolve:
  "ctl_generator (fst s) = None \<Longrightarrow>
     dom (resolve (fst (run_calls s calls))) = dom (resolve (fst s)) \<union> seeded calls \<union> scanned calls"
  unfolding run_calls_def
proof (induction calls arbitrary: s)
  case Nil
  show ?case by simp
next
  case (Cons x calls)
  from run_call_generator_None[OF Cons.prems, of x]
  have g: "ctl_generator (fst (run_call s x)) = None" .
  have "dom (resolve (fst (foldl run_call s (x # calls)))) =
        dom (resolve (fst (run_call s x))) \<union> seeded calls \<union> scanned calls"
    using Cons.IH[OF g] by simp
  also have "\<dots> = (dom (resolve (fst s)) \<union> seeded [x] \<union> scanned [x]) \<union> seeded calls \<union> scanned calls"
    by (simp only: run_call_dom_resolve[OF Cons.prems])
  also have "\<dots> = dom (resolve (fst s)) \<union> seeded (x # calls) \<union> scanned (x # calls)"
    by (subst (2) seeded_Cons, subst (2) scanned_Cons) auto
  finally show ?case .
qed

lemma getFormat_fails_exhausted:
  assumes "fst (getFormat c N copy h) = Inl ReferenceError"
  shows "ctl_cache c N = None \<and>
         (\<exists>g' cache'. RecursiveIterator_next (generator c) (ctl_cache c) (Some N) = (Exhausted, g', cache') \<and>
                      stackNodes g' = [] \<and> ctl_cache (fst (snd (getFormat c N copy h))) = cache')"
proof -
  from assms have m: "ctl_cache c N = None"
    by (cases "ctl_cache c N") (auto simp: getFormat_def clone_def split: if_splits)
  obtain res g' cache' where
    n: "RecursiveIterator_next (generator c) (ctl_cache c) (Some N) = (res, g', cache')"
    by (metis prod_cases3)
  from assms m n have r: "res = Exhausted"
    by (cases res) (auto simp: getFormat_def clone_def Let_def split: if_splits)
  obtain r0 S' where l: "next_loop (Some N) (stackNodes (generator c)) (ctl_cache c) = (r0, S', cache')"
    and g': "stackNodes g' = S'" and r0: "r0 = None"
    using n r by (cases "next_loop (Some N) (stackNodes (generator c)) (ctl_cache c)")
                 (auto simp: RecursiveIterator_next_def split: option.splits)
  from next_loop_scan[OF l] r0 g' have "stackNodes g' = []" by simp
  moreover from m n r have "ctl_cache (fst (snd (getFormat c N copy h))) = cache'"
    by (simp add: getFormat_def Let_def)
  ultimately show ?thesis using m n r by simp
qed

text \<open>
  C4 (when a lookup fails), as amended: on a controller reached from a new one by any calls,
  a lookup of \<open>N\<close> fails exactly when \<open>N\<close> is not declared in the bound payload, was not
  seeded by \<^verbatim>\<open>setOriginal\<close> and was not recorded by a \<^verbatim>\<open>scanFormats\<close> call (as an id declared in
  the scanned payload); when it fails, the engine it ran has reported exhaustion with an
  empty stack. The calls before may be any number of lookups, successful or not.
\<close>

theorem C4_lookup_fails_iff:
  "(case run_calls (SbisFormatController_new p, h0) calls of
      (c, h) \<Rightarrow>
        (fst (getFormat c N copy h) = Inl ReferenceError
           \<longleftrightarrow> N \<notin> ids p \<and> N \<notin> seeded calls \<and> N \<notin> scanned calls) \<and>
        (fst (getFormat c N copy h) \<noteq> Inl ReferenceError \<or>
           (\<exists>g' cache'. RecursiveIterator_next (generator c) (ctl_cache c) (Some N)
                          = (Exhausted, g', cache') \<and> stackNodes g' = [])))"
proof -
  obtain c h where r: "run_calls (SbisFormatController_new p, h0) calls = (c, h)"
    by (cases "run_calls (SbisFormatController_new p, h0) calls")
  from run_calls_new[OF r] have g: "ctl_generator c = None" by simp
  have "dom (resolve c) = ids p \<union> seeded calls \<union> scanned calls"
    using run_calls_dom_resolve[of "(SbisFormatController_new p, h0)" calls] r
    by (simp add: SbisFormatController_new_def dom_resolve)
  moreover have "resolve c N = None \<longleftrightarrow> N \<notin> dom (resolve c)" by (simp add: domIff)
  ultimately have "resolve c N = None \<longleftrightarrow> N \<notin> ids p \<and> N \<notin> seeded calls \<and> N \<notin> scanned calls"
    by simp
  with getFormat_fails_iff[OF g, of N copy h]
  have 1: "fst (getFormat c N copy h) = Inl ReferenceError
           \<longleftrightarrow> N \<notin> ids p \<and> N \<notin> seeded calls \<and> N \<notin> scanned calls" by simp
  have 2: "fst (getFormat c N copy h) \<noteq> Inl ReferenceError \<or>
           (\<exists>g' cache'. RecursiveIterator_next (generator c) (ctl_cache c) (Some N)
                          = (Exhausted, g', cache') \<and> stackNodes g' = [])"
    using getFormat_fails_exhausted[of c N copy h] by blast
  from 1 2 show ?thesis unfolding r by blast
qed


theorem C4_lookup_fails_iff_witness:
  "(case run_calls (SbisFormatController_new example_payload, example_heap)
           [GetFormat 1 False, SetOriginal 7 0, GetFormat 2 True] of
      (c, h) \<Rightarrow>
        fst (getFormat c 3 False h) = Inl ReferenceError \<and>
        fst (getFormat c 7 False h) \<noteq> Inl ReferenceError \<and>
        (\<exists>g' cache'. RecursiveIterator_next (generator c) (ctl_cache c) (Some 3)
                        = (Exhausted, g', cache') \<and> stackNodes g' = []))"
proof -
  let ?calls = "[GetFormat 1 False, SetOriginal 7 0, GetFormat 2 True]"
  have i: "ids example_payload = {1, 2}" by (auto simp: ids_def example_payload_def)
  have s: "seeded ?calls = {7}" "scanned ?calls = {}" by simp_all
  show ?thesis
    using C4_lookup_fails_iff[where p = example_payload and ?h0.0 = example_heap and calls = ?calls
            and N = 3 and copy = False]
          C4_lookup_fails_iff[where p = example_payload and ?h0.0 = example_heap and calls = ?calls
            and N = 7 and copy = False]
    unfolding i s by (auto split: prod.splits)
qed

theorem C4_counterexample:
  "7 \<notin> ids (Arr [] :: addr json) \<and>
   seeded [ScanFormats (Obj (Some 7) (Some 0) (Prim PUndefined))] = {} \<and>
   (case run_calls (SbisFormatController_new (Arr []), example_heap)
           [ScanFormats (Obj (Some 7) (Some 0) (Prim PUndefined))] of
      (c, h) \<Rightarrow> getFormat c 7 False h = (Inr 0, c, h))"
  by (simp add: ids_def run_calls_def engine_eval controller_eval)

lemma next_yield_cached:
  assumes "RecursiveIterator_next g st (Some N) = (Yielded b, g', st')"
  shows "st' N = Some b"
proof -
  obtain r S' where l: "next_loop (Some N) (stackNodes g) st = (r, S', st')" and r: "r = Some b"
    using assms by (cases "next_loop (Some N) (stackNodes g) st")
                   (auto simp: RecursiveIterator_next_def split: option.splits)
  from next_loop_scan[OF l] have "scan (Some N) (pending (stackNodes g)) st = (r, pending S', st')"
    by simp
  from scan_props[OF this] r show ?thesis by (auto simp: scan_post_def)
qed

lemma getFormat_copy_result:
  assumes e: "getFormat c N True h = (Inr a', c', h')"
  shows "\<exists>a. ctl_cache c' N = Some a \<and> a' = length h \<and> h' = h @ [heap_get h a]"
proof (cases "ctl_cache c N")
  case (Some a)
  with e show ?thesis by (auto simp: getFormat_def clone_def)
next
  case None
  obtain res g' cache' where
    n: "RecursiveIterator_next (generator c) (ctl_cache c) (Some N) = (res, g', cache')"
    by (metis prod_cases3)
  from e None n obtain b where res: "res = Yielded b"
    by (cases res) (auto simp: getFormat_def Let_def)
  from next_yield_cached[OF n[unfolded res]] have cb: "cache' N = Some b" .
  from e None n res have "ctl_cache c' = cache'" "a' = length h" "h' = h @ [heap_get h b]"
    by (auto simp: getFormat_def Let_def clone_def)
  with cb show ?thesis by simp
qed

text \<open>
  C7 (a copy is a list of its own): when a lookup with \<open>copy\<close> succeeds and the canonical
  entry \<open>a\<close> the cache then holds for the id is an allocated list, the list returned is a
  new one (\<open>a' \<noteq> a\<close>) with the content of the canonical one, which itself is unchanged;
  and whatever the caller then stores into the returned list (\<open>h'[a' := xs]\<close>), a lookup
  without \<open>copy\<close> returns the canonical list, with the content it had.
\<close>

theorem C7_copy_is_independent:
  assumes "getFormat c N True h = (Inr a', c', h')"
    and "ctl_cache c' N = Some a" and "a < length h"
  shows "a' \<noteq> a \<and> heap_get h' a' = heap_get h' a \<and> heap_get h' a = heap_get h a \<and>
         (\<forall>xs. getFormat c' N False (h'[a' := xs]) = (Inr a, c', h'[a' := xs]) \<and>
               heap_get (h'[a' := xs]) a = heap_get h a)"
proof -
  from getFormat_copy_result[OF assms(1)] assms(2)
  have a': "a' = length h" and h': "h' = h @ [heap_get h a]" by auto
  from a' assms(3) have 1: "a' \<noteq> a" by simp
  from assms(3) have 2: "heap_get h' a = heap_get h a"
    by (simp add: h' heap_get_def nth_append)
  have 3: "heap_get h' a' = heap_get h' a"
    unfolding 2 by (simp add: h' a' heap_get_snoc)
  have 4: "heap_get (h'[a' := xs]) a = heap_get h a" for xs
    using assms(3) by (simp add: h' a' heap_get_def nth_append)
  have 5: "getFormat c' N False (h'[a' := xs]) = (Inr a, c', h'[a' := xs])" for xs
    by (rule getFormat_from_cache(1)[OF assms(2)])
  from 1 2 3 4 5 show ?thesis by blast
qed

theorem C7_copy_is_independent_witness:
  "getFormat (SbisFormatController_new example_payload) 1 True example_heap =
     (Inr 2, (SbisFormatController_new example_payload)\<lparr>ctl_cache := [1 \<mapsto> 0]\<rparr>,
      example_heap @ [[''id'']]) \<and>
   (0 :: nat) < length example_heap \<and> (2 :: nat) \<noteq> 0 \<and>
   heap_get (example_heap @ [[''id'']]) 2 = heap_get example_heap 0 \<and>
   fst (getFormat ((SbisFormatController_new example_payload)\<lparr>ctl_cache := [1 \<mapsto> 0]\<rparr>) 1 False
          ((example_heap @ [[''id'']])[2 := [''changed'']])) = Inr 0 \<and>
   heap_get ((example_heap @ [[''id'']])[2 := [''changed'']]) 0 = [''id'']"
proof -
  let ?c' = "(SbisFormatController_new example_payload)\<lparr>ctl_cache := [1 \<mapsto> 0]\<rparr>"
  let ?h' = "example_heap @ [[''id'']]"
  have e: "getFormat (SbisFormatController_new example_payload) 1 True example_heap = (Inr 2, ?c', ?h')"
    by (simp add: engine_eval controller_eval example_payload_def example_heap_def)
  have c: "ctl_cache ?c' 1 = Some 0" by simp
  have l: "(0 :: nat) < length example_heap" by (simp add: example_heap_def)
  have v: "heap_get example_heap 0 = [''id'']" by (simp add: example_heap_def heap_get_def)
  from C7_copy_is_independent[OF e c l] e l v show ?thesis by simp
qed

text \<open>
  A sequence of \<^verbatim>\<open>next\<close> calls on one engine, each with the target of its own, handing on the
  storage: \<open>drive\<close> collects the results, \<open>yields\<close> pairs every yielded structure with the id
  that was asked for, and \<open>live st ds\<close> are the declarations whose id the storage \<open>st\<close> does
  not hold.
\<close>

definition live :: "'s storage \<Rightarrow> (int \<times> 's) list \<Rightarrow> (int \<times> 's) list" where
  "live st ds = filter (\<lambda>(i, v). st i = None) ds"

fun drive :: "'s RecursiveIterator \<Rightarrow> 's storage \<Rightarrow> int option list
     \<Rightarrow> 's IResultGenerator list \<times> 's RecursiveIterator \<times> 's storage" where
  "drive g st [] = ([], g, st)"
| "drive g st (t # ts) =
     (case RecursiveIterator_next g st t of
        (r, g', st') \<Rightarrow>
          (case drive g' st' ts of
             (rs, g'', st'') \<Rightarrow> (r # rs, g'', st'')))"

fun yields :: "int option list \<Rightarrow> 's IResultGenerator list \<Rightarrow> (int \<times> 's) list" where
  "yields (Some i # ts) (Yielded a # rs) = (i, a) # yields ts rs"
| "yields (t # ts) (r # rs) = yields ts rs"
| "yields ts rs = []"

lemma scan_shape:
  "scan tgt ds st = (r, rest, st') \<Longrightarrow>
     suffix rest ds \<and> map_of rest ++ st' = map_of ds ++ st \<and>
     (\<forall>v. r = Some v \<longrightarrow>
        (\<exists>i rest'. tgt = Some i \<and> rest = (i, v) # rest' \<and> st i = None \<and> st' i = Some v \<and>
                   subseq ((i, v) # live st rest') (live st ds)))"
proof (induction ds arbitrary: st)
  case Nil
  then show ?case by auto
next
  case (Cons a ds)
  obtain i v where a: "a = (i, v)" by (cases a)
  show ?case
  proof (cases "st i")
    case None
    note eq = Cons.prems[unfolded a scan_Cons_None[of st i, OF None]]
    show ?thesis
    proof (cases "tgt = Some i")
      case True
      with eq have r: "r = Some v" and rest: "rest = (i, v) # ds" and s: "st' = st(i \<mapsto> v)"
        by auto
      have 1: "suffix rest (a # ds)" by (simp add: rest a)
      have "map_of ((i, v) # ds) ++ st(i \<mapsto> v) = map_of ds ++ st(i \<mapsto> v)"
        by (rule ext) (auto simp: map_add_def split: option.splits)
      then have 2: "map_of rest ++ st' = map_of (a # ds) ++ st"
        unfolding rest s a map_add_upd_first[of st i ds v, OF None, symmetric] .
      have 3: "st' i = Some v" unfolding s by simp
      have 4: "subseq ((i, v) # live st ds) (live st (a # ds))"
        using None by (simp add: live_def a)
      from 1 2 3 4 r rest True None show ?thesis unfolding a by blast
    next
      case False
      with eq have e: "scan tgt ds (st(i \<mapsto> v)) = (r, rest, st')" by simp
      note ih = Cons.IH[OF e]
      note ih1 = ih[THEN conjunct1] and ih2 = ih[THEN conjunct2, THEN conjunct1]
      have 1: "suffix rest (a # ds)" using ih1 by (simp add: suffix_Cons)
      have 2: "map_of rest ++ st' = map_of (a # ds) ++ st"
        unfolding a map_add_upd_first[of st i ds v, OF None, symmetric] by (rule ih2)
      have 3: "\<exists>j rest'. tgt = Some j \<and> rest = (j, w) # rest' \<and> st j = None \<and> st' j = Some w \<and>
                   subseq ((j, w) # live st rest') (live st (a # ds))" if w: "r = Some w" for w
      proof -
        from ih w obtain j rest' where j: "tgt = Some j" "rest = (j, w) # rest'"
          "(st(i \<mapsto> v)) j = None" "st' j = Some w"
          "subseq ((j, w) # live (st(i \<mapsto> v)) rest') (live (st(i \<mapsto> v)) ds)"
          by blast
        from j(3) have ji: "j \<noteq> i" and sj: "st j = None" by (auto split: if_splits)
        from ih1 j(2) have sf: "suffix ((j, w) # rest') ds" by simp
        then obtain pre where ds: "ds = pre @ (j, w) # rest'" by (auto simp: suffix_def)
        have "live st ds = live st pre @ (j, w) # live st rest'"
          using sj by (simp add: ds live_def)
        then have "subseq ((j, w) # live st rest') (live st ds)"
          by (simp add: subseq_drop_many)
        moreover have "live st (a # ds) = (i, v) # live st ds"
          using None by (simp add: live_def a)
        ultimately have "subseq ((j, w) # live st rest') (live st (a # ds))"
          by (simp only: list_emb_Cons)
        with j(1,2,4) sj show ?thesis by blast
      qed
      from 1 2 3 show ?thesis by blast
    qed
  next
    case (Some w0)
    note eq = Cons.prems[unfolded a scan_Cons_Some[of st i, OF Some]]
    note ih = Cons.IH[OF eq]
    note ih1 = ih[THEN conjunct1] and ih2 = ih[THEN conjunct2, THEN conjunct1]
    have 1: "suffix rest (a # ds)" using ih1 by (simp add: suffix_Cons)
    have 2: "map_of rest ++ st' = map_of (a # ds) ++ st"
      unfolding a map_add_skip_first[where st=st and i=i, OF Some] by (rule ih2)
    have l: "live st (a # ds) = live st ds" using Some by (simp add: live_def a)
    from 1 2 ih show ?thesis unfolding l by blast
  qed
qed

text \<open>The field \<^verbatim>\<open>value\<close> of a result of \<^verbatim>\<open>next\<close>.\<close>

definition generator_value :: "'s IResultGenerator \<Rightarrow> 's option" where
  "generator_value r = (case r of Yielded a \<Rightarrow> Some a | Exhausted \<Rightarrow> None)"

lemma next_step:
  assumes "RecursiveIterator_next g st t = (r, g', st')"
  shows "scan t (pending (stackNodes g)) st = (generator_value r, pending (stackNodes g'), st')"
    and "r = Exhausted \<Longrightarrow> stackNodes g' = []"
proof -
  obtain r0 S' where l: "next_loop t (stackNodes g) st = (r0, S', st')"
    and g': "stackNodes g' = S'" and r: "r = (case r0 of Some a \<Rightarrow> Yielded a | None \<Rightarrow> Exhausted)"
    using assms by (cases "next_loop t (stackNodes g) st")
                   (auto simp: RecursiveIterator_next_def split: option.splits)
  from r have r0: "generator_value r = r0" by (cases r0) (simp_all add: generator_value_def)
  from next_loop_scan[OF l] g' r0
  show "scan t (pending (stackNodes g)) st = (generator_value r, pending (stackNodes g'), st')"
    by simp
  show "r = Exhausted \<Longrightarrow> stackNodes g' = []"
    using next_loop_scan[OF l] g' r by (cases r0) simp_all
qed

lemma next_on_empty:
  "stackNodes g = [] \<Longrightarrow> RecursiveIterator_next g st t = (Exhausted, g, st)"
  by (simp add: RecursiveIterator_next_def next_loop.simps processableId_def)

lemma drive_on_empty:
  "stackNodes g = [] \<Longrightarrow> drive g st ts = (replicate (length ts) Exhausted, g, st)"
  by (induction ts) (simp_all add: next_on_empty)

lemma yields_Exhausted: "yields ts (replicate n Exhausted) = []"
proof (induction n arbitrary: ts)
  case 0
  show ?case by (cases ts) simp_all
next
  case (Suc n)
  show ?case
  proof (cases ts)
    case Nil
    then show ?thesis by simp
  next
    case (Cons t ts')
    with Suc show ?thesis by (cases t) simp_all
  qed
qed

lemma live_mono: "st \<subseteq>\<^sub>m st1 \<Longrightarrow> subseq (live st1 ds) (live st ds)"
proof (induction ds)
  case Nil
  show ?case by (simp add: live_def)
next
  case (Cons a ds)
  obtain i v where a: "a = (i, v)" by (cases a)
  from Cons have ih: "subseq (live st1 ds) (live st ds)" by simp
  show ?case
  proof (cases "st i")
    case None
    then have l: "live st (a # ds) = a # live st ds" by (simp add: live_def a)
    show ?thesis
    proof (cases "st1 i")
      case None
      then have "live st1 (a # ds) = a # live st1 ds" by (simp add: live_def a)
      with l ih show ?thesis by simp
    next
      case (Some w)
      then have "live st1 (a # ds) = live st1 ds" by (simp add: live_def a)
      with l ih show ?thesis by (simp only: list_emb_Cons)
    qed
  next
    case (Some w)
    with Cons.prems have "st1 i = Some w" by (auto simp: map_le_def dom_def)
    with Some have "live st (a # ds) = live st ds" "live st1 (a # ds) = live st1 ds"
      by (simp_all add: live_def a)
    with ih show ?thesis by simp
  qed
qed

lemma live_set: "(i, v) \<in> set (live st ds) \<Longrightarrow> st i = None"
  by (auto simp: live_def)

lemma drive_invariant:
  "drive g st ts = (rs, g', st') \<Longrightarrow>
     suffix (pending (stackNodes g')) (pending (stackNodes g)) \<and>
     map_of (pending (stackNodes g')) ++ st' = map_of (pending (stackNodes g)) ++ st \<and>
     st \<subseteq>\<^sub>m st' \<and>
     subseq (yields ts rs) (live st (pending (stackNodes g))) \<and>
     distinct (map fst (yields ts rs)) \<and>
     (Exhausted \<in> set rs \<longrightarrow> stackNodes g' = [])"
proof (induction ts arbitrary: g st rs)
  case Nil
  then show ?case by auto
next
  case (Cons t ts)
  obtain r g1 st1 where n: "RecursiveIterator_next g st t = (r, g1, st1)" by (metis prod_cases3)
  obtain rs1 where d: "drive g1 st1 ts = (rs1, g', st')" and rs: "rs = r # rs1"
    using Cons.prems n by (auto split: prod.splits)
  let ?L = "pending (stackNodes g)" and ?L1 = "pending (stackNodes g1)" and ?L' = "pending (stackNodes g')"
  note sc = next_step(1)[OF n]
  note sh = scan_shape[OF sc]
  note sh1 = sh[THEN conjunct1] and sh2 = sh[THEN conjunct2, THEN conjunct1]
    and sh3 = sh[THEN conjunct2, THEN conjunct2]
  from scan_props[OF sc] have le: "st \<subseteq>\<^sub>m st1" by (simp add: scan_post_def)
  note ih = Cons.IH[OF d]
  note ih1 = ih[THEN conjunct1] and ih2 = ih[THEN conjunct2, THEN conjunct1]
    and ih3 = ih[THEN conjunct2, THEN conjunct2, THEN conjunct1]
    and ih4 = ih[THEN conjunct2, THEN conjunct2, THEN conjunct2, THEN conjunct1]
    and ih5 = ih[THEN conjunct2, THEN conjunct2, THEN conjunct2, THEN conjunct2, THEN conjunct1]
    and ih6 = ih[THEN conjunct2, THEN conjunct2, THEN conjunct2, THEN conjunct2, THEN conjunct2]
  have 1: "suffix ?L' ?L" using ih1 sh1 by (rule suffix_order.trans)
  have 2: "map_of ?L' ++ st' = map_of ?L ++ st" using ih2 sh2 by (rule trans)
  have 3: "st \<subseteq>\<^sub>m st'" using le ih3 by (rule map_le_trans)
  have 45: "subseq (yields (t # ts) rs) (live st ?L) \<and> distinct (map fst (yields (t # ts) rs))"
  proof (cases r)
    case Exhausted
    from next_step(2)[OF n Exhausted] have e: "stackNodes g1 = []" .
    from drive_on_empty[OF e, of st1 ts] d have "rs1 = replicate (length ts) Exhausted" by simp
    then have "yields ts rs1 = []" by (simp add: yields_Exhausted)
    then have "yields (t # ts) rs = []" unfolding rs Exhausted by (cases t) simp_all
    then show ?thesis by simp
  next
    case (Yielded v)
    from sh3 Yielded obtain i rest' where i: "t = Some i" "?L1 = (i, v) # rest'"
      "st i = None" "st1 i = Some v" "subseq ((i, v) # live st rest') (live st ?L)"
      by (auto simp: generator_value_def)
    have y: "yields (t # ts) rs = (i, v) # yields ts rs1" by (simp add: rs Yielded i(1))
    have "live st1 ?L1 = live st1 rest'" using i(4) by (simp add: i(2) live_def)
    with ih4 have a: "subseq (yields ts rs1) (live st1 rest')" by simp
    from a live_mono[OF le, of rest'] have "subseq (yields ts rs1) (live st rest')"
      by (rule subseq_order.trans)
    then have "subseq ((i, v) # yields ts rs1) ((i, v) # live st rest')" by simp
    from this i(5) have s: "subseq (yields (t # ts) rs) (live st ?L)"
      unfolding y by (rule subseq_order.trans)
    have "i \<notin> fst ` set (yields ts rs1)"
    proof
      assume "i \<in> fst ` set (yields ts rs1)"
      then obtain w where "(i, w) \<in> set (yields ts rs1)" by auto
      from list_emb_set[OF a this] have "(i, w) \<in> set (live st1 rest')" by auto
      from live_set[OF this] i(4) show False by simp
    qed
    with ih5 have "distinct (map fst (yields (t # ts) rs))" unfolding y by simp
    with s show ?thesis by simp
  qed
  have 6: "Exhausted \<in> set rs \<longrightarrow> stackNodes g' = []"
  proof
    assume "Exhausted \<in> set rs"
    then consider "r = Exhausted" | "Exhausted \<in> set rs1" unfolding rs by auto
    then show "stackNodes g' = []"
    proof cases
      case 1
      from next_step(2)[OF n 1] have e: "stackNodes g1 = []" .
      from drive_on_empty[OF e, of st1 ts] d show ?thesis using e by simp
    next
      case 2
      with ih6 show ?thesis by simp
    qed
  qed
  show ?case
    apply (intro conjI)
         apply (rule 1)
        apply (rule 2)
       apply (rule 3)
      apply (rule 45[THEN conjunct1])
     apply (rule 45[THEN conjunct2])
    apply (rule 6)
    done
qed


lemma drive_length: "drive g st ts = (rs, g', st') \<Longrightarrow> length rs = length ts"
proof (induction ts arbitrary: g st rs)
  case Nil
  then show ?case by simp
next
  case (Cons t ts)
  obtain r g1 st1 where n: "RecursiveIterator_next g st t = (r, g1, st1)" by (metis prod_cases3)
  obtain rs1 where d: "drive g1 st1 ts = (rs1, g', st')" and rs: "rs = r # rs1"
    using Cons.prems n by (auto split: prod.splits)
  from Cons.IH[OF d] rs show ?case by simp
qed

text \<open>
  C9 (termination and bookkeeping of the engine), as amended. Every call of \<^verbatim>\<open>next\<close>, on any
  engine state, returns: either it reports exhaustion, and then the stack is empty, or it
  yields the structure it has just recorded for the target. Over any sequence of calls on
  one engine that hand on the same storage: the engine only moves forward in document
  order (what it has still to offer is a suffix of the declarations); what is recorded
  together with what is still to offer is always everything declared, first declaration
  first; the declarations yielded are distinct ids and come in document order out of the
  declarations whose id the storage did not hold at the start, each at most once; and once
  a call has reported exhaustion the storage holds every declared id.
\<close>

theorem C9_traversal_resumes:
  "(\<exists>r g' st'. RecursiveIterator_next g st t = (r, g', st') \<and>
       (case r of
          Exhausted \<Rightarrow> stackNodes g' = []
        | Yielded a \<Rightarrow> \<exists>i. t = Some i \<and> st i = None \<and> st' i = Some a)) \<and>
   (case drive (RecursiveIterator_new p) st0 ts of
      (rs, g', st') \<Rightarrow>
        length rs = length ts \<and>
        suffix (pending (stackNodes g')) (decls p) \<and>
        map_of (pending (stackNodes g')) ++ st' = map_of (decls p) ++ st0 \<and>
        subseq (yields ts rs) (live st0 (decls p)) \<and>
        distinct (map fst (yields ts rs)) \<and>
        (Exhausted \<in> set rs \<longrightarrow> stackNodes g' = [] \<and> st' = map_of (decls p) ++ st0))"
proof -
  obtain r g' st' where n: "RecursiveIterator_next g st t = (r, g', st')" by (metis prod_cases3)
  have "case r of
          Exhausted \<Rightarrow> stackNodes g' = []
        | Yielded a \<Rightarrow> \<exists>i. t = Some i \<and> st i = None \<and> st' i = Some a"
  proof (cases r)
    case Exhausted
    with next_step(2)[OF n] show ?thesis by simp
  next
    case (Yielded a)
    from scan_shape[OF next_step(1)[OF n], THEN conjunct2, THEN conjunct2] Yielded
    show ?thesis by (auto simp: generator_value_def)
  qed
  with n have A: "\<exists>r g' st'. RecursiveIterator_next g st t = (r, g', st') \<and>
       (case r of
          Exhausted \<Rightarrow> stackNodes g' = []
        | Yielded a \<Rightarrow> \<exists>i. t = Some i \<and> st i = None \<and> st' i = Some a)" by blast
  obtain rs g2 st2 where d: "drive (RecursiveIterator_new p) st0 ts = (rs, g2, st2)"
    by (metis prod_cases3)
  have pn: "pending (stackNodes (RecursiveIterator_new p)) = decls p"
    by (simp add: RecursiveIterator_new_def pending_wrap)
  note inv = drive_invariant[OF d, unfolded pn]
  note i1 = inv[THEN conjunct1] and i2 = inv[THEN conjunct2, THEN conjunct1]
    and i4 = inv[THEN conjunct2, THEN conjunct2, THEN conjunct2, THEN conjunct1]
    and i5 = inv[THEN conjunct2, THEN conjunct2, THEN conjunct2, THEN conjunct2, THEN conjunct1]
    and i6 = inv[THEN conjunct2, THEN conjunct2, THEN conjunct2, THEN conjunct2, THEN conjunct2]
  have e: "Exhausted \<in> set rs \<longrightarrow> stackNodes g2 = [] \<and> st2 = map_of (decls p) ++ st0"
  proof
    assume "Exhausted \<in> set rs"
    with i6 have s: "stackNodes g2 = []" by simp
    with i2 show "stackNodes g2 = [] \<and> st2 = map_of (decls p) ++ st0" by simp
  qed
  have B: "length rs = length ts \<and>
        suffix (pending (stackNodes g2)) (decls p) \<and>
        map_of (pending (stackNodes g2)) ++ st2 = map_of (decls p) ++ st0 \<and>
        subseq (yields ts rs) (live st0 (decls p)) \<and>
        distinct (map fst (yields ts rs)) \<and>
        (Exhausted \<in> set rs \<longrightarrow> stackNodes g2 = [] \<and> st2 = map_of (decls p) ++ st0)"
    apply (intro conjI)
         apply (rule drive_length[OF d])
        apply (rule i1)
       apply (rule i2)
      apply (rule i4)
     apply (rule i5)
    apply (rule e)
    done
  from A B show ?thesis unfolding d by simp
qed

theorem C9_traversal_resumes_witness:
  "(case drive (RecursiveIterator_new example_payload) Map.empty [Some 2, Some 1, None] of
      (rs, g', st') \<Rightarrow>
        rs = [Yielded 1, Exhausted, Exhausted] \<and>
        yields [Some 2, Some 1, None] rs = [(2, 1)] \<and>
        Exhausted \<in> set rs \<and> stackNodes g' = [] \<and>
        st' = map_of (decls example_payload) ++ Map.empty)"
proof -
  obtain rs g' st' where
    d: "drive (RecursiveIterator_new example_payload) Map.empty [Some 2, Some 1, None] = (rs, g', st')"
    by (metis prod_cases3)
  then have rs: "rs = [Yielded 1, Exhausted, Exhausted]"
    by (auto simp: engine_eval example_payload_def)
  from C9_traversal_resumes[where g = "RecursiveIterator_new example_payload" and st = Map.empty
         and t = None and p = example_payload and ?st0.0 = Map.empty
         and ts = "[Some 2, Some 1, None]"] d rs
  have "stackNodes g' = [] \<and> st' = map_of (decls example_payload) ++ Map.empty" by simp
  with rs show ?thesis unfolding d by simp
qed

theorem C9_counterexample:
  "(case RecursiveIterator_next
           (RecursiveIterator_new (Obj (Some 1) (Some (0 :: nat)) (Prim PUndefined)))
           Map.empty (Some 1) of
      (r1, g1, st1) \<Rightarrow>
        (case RecursiveIterator_next g1 Map.empty (Some 1) of
           (r2, g2, st2) \<Rightarrow>
             r1 = Yielded 0 \<and> st1 1 = Some 0 \<and> map completed (stackNodes g1) = [False] \<and>
             r2 = Yielded 0 \<and> st2 1 = Some 0))"
  by (simp add: engine_eval)

section \<open>recoverData\<close>

text \<open>
  \<^verbatim>\<open>recoverData\<close> mutates the payload in place: the callback of \<^verbatim>\<open>recoverFormats\<close>
  assigns \<^verbatim>\<open>entry.s\<close> on the node it is handed, and the second pass deletes \<^verbatim>\<open>entry.f\<close>
  on the nodes the first pass collected. The payload is a tree here, so an object reference
  into it is the path from the root to the node: \<open>Item k\<close> is the \<open>k\<close>-th element of an
  array, \<open>D\<close> the field \<^verbatim>\<open>d\<close> of an object. \<open>update_at\<close> is an assignment through such a
  reference. (A payload in which one object occurs at two places is outside this model.)
\<close>

datatype step = Item nat | D

type_synonym path = "step list"

fun get_at :: "path \<Rightarrow> 's json \<Rightarrow> 's json option" where
  "get_at [] j = Some j"
| "get_at (Item k # q) (Arr xs) = (if k < length xs then get_at q (xs ! k) else None)"
| "get_at (D # q) (Obj f s d) = get_at q d"
| "get_at (x # q) j = None"

fun update_at :: "path \<Rightarrow> ('s json \<Rightarrow> 's json) \<Rightarrow> 's json \<Rightarrow> 's json" where
  "update_at [] g j = g j"
| "update_at (Item k # q) g (Arr xs) =
     (if k < length xs then Arr (xs[k := update_at q g (xs ! k)]) else Arr xs)"
| "update_at (D # q) g (Obj f s d) = Obj f s (update_at q g d)"
| "update_at (x # q) g j = j"

text \<open>\<^verbatim>\<open>delete entry.s; entry.s = s\<close> and \<^verbatim>\<open>delete recovered.f\<close>.\<close>

fun set_s :: "'s \<Rightarrow> 's json \<Rightarrow> 's json" where
  "set_s v (Obj f s d) = Obj f (Some v) d"
| "set_s v j = j"

fun delete_f :: "'s json \<Rightarrow> 's json" where
  "delete_f (Obj f s d) = Obj None s d"
| "delete_f j = j"

text \<open>
  \<^verbatim>\<open>eachFormatEntry(data, callback)\<close>: an array is walked item by item; an object with an
  \<^verbatim>\<open>s\<close> or an \<^verbatim>\<open>f\<close> is handed to the callback, and then its \<^verbatim>\<open>d\<close> is walked when that is
  truthy; anything else is skipped. The callback is handed the reference \<open>q\<close> of the node and
  the two fields it reads, and it threads the state \<open>st\<close> it works on; when it throws, the
  walk stops with the error.
\<close>

fun eachFormatEntry ::
  "path \<Rightarrow> 's json \<Rightarrow> (path \<Rightarrow> int option \<Rightarrow> 's option \<Rightarrow> 'st \<Rightarrow> error + 'st) \<Rightarrow> 'st \<Rightarrow> error + 'st"
and eachFormatEntry_items ::
  "path \<Rightarrow> nat \<Rightarrow> 's json list \<Rightarrow> (path \<Rightarrow> int option \<Rightarrow> 's option \<Rightarrow> 'st \<Rightarrow> error + 'st)
     \<Rightarrow> 'st \<Rightarrow> error + 'st"
where
  "eachFormatEntry q (Arr xs) callback st = eachFormatEntry_items q 0 xs callback st"
| "eachFormatEntry q (Obj f s d) callback st =
     (case (if s \<noteq> None \<or> f \<noteq> None then callback q f s st else Inr st) of
        Inl e \<Rightarrow> Inl e
      | Inr st' \<Rightarrow> if truthy d then eachFormatEntry (q @ [D]) d callback st' else Inr st')"
| "eachFormatEntry q (Prim p) callback st = Inr st"
| "eachFormatEntry_items q k [] callback st = Inr st"
| "eachFormatEntry_items q k (item # items) callback st =
     (case eachFormatEntry (q @ [Item k]) item callback st of
        Inl e \<Rightarrow> Inl e
      | Inr st' \<Rightarrow> eachFormatEntry_items q (Suc k) items callback st')"

text \<open>
  The controller holds a reference to its data. When that is the payload object itself
  (\<open>same\<close>), an assignment into the payload is seen by the controller's next traversal;
  otherwise the controller's data is another tree, which the call never touches.
\<close>

definition bound_to :: "addr json \<Rightarrow> SbisFormatController \<Rightarrow> bool \<Rightarrow> SbisFormatController" where
  "bound_to root c same = (if same then c\<lparr>ctl_data := root\<rparr> else c)"

text \<open>
  The callback of \<^verbatim>\<open>recoverFormats\<close>: \<^verbatim>\<open>s = entry.s || controller.getFormat(entry.f)\<close>, the
  assignment of \<^verbatim>\<open>entry.s\<close>, and \<^verbatim>\<open>result.push(entry)\<close>. The state is the payload, the
  controller, the heap and \<^verbatim>\<open>result\<close>. (The last equation is never reached from
  \<open>eachFormatEntry\<close>: \<^verbatim>\<open>getFormat(undefined)\<close> finds no entry and throws.)
\<close>

fun recover_entry ::
  "bool \<Rightarrow> path \<Rightarrow> int option \<Rightarrow> addr option
     \<Rightarrow> addr json \<times> SbisFormatController \<times> 'fd heap \<times> path list
     \<Rightarrow> error + addr json \<times> SbisFormatController \<times> 'fd heap \<times> path list" where
  "recover_entry same q f (Some v) (root, c, h, result) =
     (let root' = update_at q (set_s v) root
      in Inr (root', bound_to root' c same, h, result @ [q]))"
| "recover_entry same q (Some i) None (root, c, h, result) =
     (case getFormat c i False h of
        (Inl e, c', h') \<Rightarrow> Inl e
      | (Inr a, c', h') \<Rightarrow>
          (let root' = update_at q (set_s a) root
           in Inr (root', bound_to root' c' same, h', result @ [q])))"
| "recover_entry same q None None (root, c, h, result) = Inl ReferenceError"

definition recoverFormats ::
  "bool \<Rightarrow> addr json \<Rightarrow> SbisFormatController \<Rightarrow> 'fd heap
     \<Rightarrow> error + addr json \<times> SbisFormatController \<times> 'fd heap \<times> path list" where
  "recoverFormats same d c h = eachFormatEntry [] d (recover_entry same) (d, c, h, [])"

text \<open>\<^verbatim>\<open>controller || new SbisFormatController(data)\<close>: the new controller is bound to the
  payload object itself.\<close>

definition controller_or_new ::
  "addr json \<Rightarrow> (SbisFormatController \<times> bool) option \<Rightarrow> SbisFormatController \<times> bool" where
  "controller_or_new d controller =
     (case controller of
        None \<Rightarrow> (SbisFormatController_new d, True)
      | Some (c, same) \<Rightarrow> (bound_to d c same, same))"

text \<open>
  \<^verbatim>\<open>recoverData(data, controller)\<close>: the first pass, then \<^verbatim>\<open>delete recovered.f\<close> on every
  collected node, and the payload is returned. An error of the first pass is the result of
  the call; the payload as it was left at that moment is not part of the result.
\<close>

definition recoverData ::
  "addr json \<Rightarrow> (SbisFormatController \<times> bool) option \<Rightarrow> 'fd heap
     \<Rightarrow> error + addr json \<times> SbisFormatController \<times> 'fd heap" where
  "recoverData d controller h =
     (case controller_or_new d controller of
        (c, same) \<Rightarrow>
          (case recoverFormats same d c h of
             Inl e \<Rightarrow> Inl e
           | Inr (root, c', h', result) \<Rightarrow>
               (let root' = fold (\<lambda>q. update_at q delete_f) result root
                in Inr (root', bound_to root' c' same, h'))))"

lemmas recover_eval = recoverData_def controller_or_new_def recoverFormats_def bound_to_def


text \<open>
  Read off the payload, in the order of the walk: the ids that are looked up (\<open>refs\<close>: the
  \<^verbatim>\<open>f\<close> of every carrier without \<^verbatim>\<open>s\<close>), the two fields of every carrier (\<open>entries\<close>),
  and the references to the carriers (\<open>entry_paths\<close>). \<open>attach r\<close> gives every carrier without
  \<^verbatim>\<open>s\<close> the structure \<open>r\<close> has for its id, \<open>strip\<close> removes every \<^verbatim>\<open>f\<close>, and \<open>recovered\<close> is
  one after the other.
\<close>

fun refs :: "'s json \<Rightarrow> int list"
and refs_list :: "'s json list \<Rightarrow> int list" where
  "refs (Prim p) = []"
| "refs (Arr xs) = refs_list xs"
| "refs (Obj f s d) =
     (case s of Some v \<Rightarrow> [] | None \<Rightarrow> (case f of Some i \<Rightarrow> [i] | None \<Rightarrow> [])) @ refs d"
| "refs_list [] = []"
| "refs_list (x # xs) = refs x @ refs_list xs"

fun entries :: "'s json \<Rightarrow> (int option \<times> 's option) list"
and entries_list :: "'s json list \<Rightarrow> (int option \<times> 's option) list" where
  "entries (Prim p) = []"
| "entries (Arr xs) = entries_list xs"
| "entries (Obj f s d) = (if s \<noteq> None \<or> f \<noteq> None then [(f, s)] else []) @ entries d"
| "entries_list [] = []"
| "entries_list (x # xs) = entries x @ entries_list xs"

fun entry_paths :: "'s json \<Rightarrow> path list"
and entry_paths_items :: "nat \<Rightarrow> 's json list \<Rightarrow> path list" where
  "entry_paths (Prim p) = []"
| "entry_paths (Arr xs) = entry_paths_items 0 xs"
| "entry_paths (Obj f s d) =
     (if s \<noteq> None \<or> f \<noteq> None then [[]] else []) @ map ((#) D) (entry_paths d)"
| "entry_paths_items k [] = []"
| "entry_paths_items k (x # xs) = map ((#) (Item k)) (entry_paths x) @ entry_paths_items (Suc k) xs"

fun attach :: "(int \<Rightarrow> 's option) \<Rightarrow> 's json \<Rightarrow> 's json" where
  "attach r (Prim p) = Prim p"
| "attach r (Arr xs) = Arr (map (attach r) xs)"
| "attach r (Obj f s d) =
     Obj f (case s of Some v \<Rightarrow> Some v | None \<Rightarrow> (case f of Some i \<Rightarrow> r i | None \<Rightarrow> None))
         (attach r d)"

fun strip :: "'s json \<Rightarrow> 's json" where
  "strip (Prim p) = Prim p"
| "strip (Arr xs) = Arr (map strip xs)"
| "strip (Obj f s d) = Obj None s (strip d)"

definition recovered :: "(int \<Rightarrow> 's option) \<Rightarrow> 's json \<Rightarrow> 's json" where
  "recovered r j = strip (attach r j)"

lemma get_at_append:
  "get_at (q @ q') R = (case get_at q R of None \<Rightarrow> None | Some j \<Rightarrow> get_at q' j)"
  by (induction q R rule: get_at.induct) simp_all

lemma update_at_append: "update_at (q @ q') g R = update_at q (update_at q' g) R"
  by (induction q g R rule: update_at.induct) simp_all

lemma update_at_twice: "update_at q g (update_at q g' R) = update_at q (\<lambda>j. g (g' j)) R"
  by (induction q g' R rule: update_at.induct) simp_all

lemma update_at_const:
  "get_at q R = Some j \<Longrightarrow> update_at q g R = update_at q (\<lambda>_. g j) R"
  by (induction q g R rule: update_at.induct) (simp_all split: if_splits)

lemma get_at_update_at:
  "get_at q R = Some j \<Longrightarrow> get_at q (update_at q g R) = Some (g j)"
  by (induction q g R rule: update_at.induct) (simp_all split: if_splits)

lemma update_at_id: "get_at q R = Some j \<Longrightarrow> g j = j \<Longrightarrow> update_at q g R = R"
  by (induction q g R rule: update_at.induct) (simp_all split: if_splits)


lemma map_of_decls_list_update:
  "k < length xs \<Longrightarrow> map_of (decls x') n = map_of (decls (xs ! k)) n
     \<Longrightarrow> map_of (decls_list (xs[k := x'])) n = map_of (decls_list xs) n"
proof (induction xs arbitrary: k)
  case Nil
  then show ?case by simp
next
  case (Cons x xs)
  show ?case
  proof (cases k)
    case 0
    with Cons.prems show ?thesis by (simp add: map_add_def)
  next
    case (Suc k')
    with Cons.prems Cons.IH[of k'] show ?thesis by (simp add: map_add_def split: option.splits)
  qed
qed

lemma map_of_decls_set_s:
  "get_at q R = Some (Obj (Some i) None d) \<Longrightarrow> n \<noteq> i
     \<Longrightarrow> map_of (decls (update_at q (set_s a) R)) n = map_of (decls R) n"
proof (induction q "set_s a" R rule: update_at.induct)
  case (1 j)
  then show ?case by simp
next
  case (2 k q xs)
  then show ?case by (simp add: map_of_decls_list_update split: if_splits)
next
  case (3 q f s d0)
  then show ?case by (simp add: map_add_def split: option.splits)
qed simp_all

text \<open>
  The outcome of a part of the first pass that did not throw: the payload and the collected
  references are as given, the controller still resolves every id as before, and it has
  cached the ids that were looked up.
\<close>

definition walked ::
  "bool \<Rightarrow> error + addr json \<times> SbisFormatController \<times> 'fd heap \<times> path list
     \<Rightarrow> addr json \<Rightarrow> SbisFormatController \<Rightarrow> 'fd heap \<Rightarrow> path list \<Rightarrow> int list \<Rightarrow> bool" where
  "walked same out R' c h ps looked_up =
     (\<exists>c'. out = Inr (R', c', h, ps) \<and> ctl_generator c' = None \<and> resolve c' = resolve c \<and>
           (same \<longrightarrow> ctl_data c' = R') \<and>
           ctl_cache c \<subseteq>\<^sub>m ctl_cache c' \<and> set looked_up \<subseteq> dom (ctl_cache c'))"

lemma resolve_rebound:
  assumes "get_at q R = Some (Obj (Some i) None d)" and "ctl_data c = R" and "ctl_cache c i = Some a"
  shows "resolve (c\<lparr>ctl_data := update_at q (set_s a) R\<rparr>) = resolve c"
proof (rule ext)
  fix n
  show "resolve (c\<lparr>ctl_data := update_at q (set_s a) R\<rparr>) n = resolve c n"
  proof (cases "ctl_cache c n")
    case (Some b)
    then show ?thesis by (simp add: resolve_def)
  next
    case None
    with assms(3) have "n \<noteq> i" by auto
    from map_of_decls_set_s[OF assms(1) this, of a] None assms(2)
    show ?thesis by (simp add: resolve_def first_declaration_def)
  qed
qed

lemma callback_step:
  fixes h :: "'fd heap" and res :: "path list"
  assumes at: "get_at q R = Some (Obj f s d)"
    and g: "ctl_generator c = None" and al: "same \<longrightarrow> ctl_data c = R"
  defines "out \<equiv> (if s \<noteq> None \<or> f \<noteq> None then recover_entry same q f s (R, c, h, res)
                   else Inr (R, c, h, res))"
    and "s' \<equiv> (case s of Some v \<Rightarrow> Some v | None \<Rightarrow> (case f of Some i \<Rightarrow> resolve c i | None \<Rightarrow> None))"
  shows "if s = None \<and> (\<exists>i. f = Some i \<and> resolve c i = None)
         then out = Inl ReferenceError
         else walked same out (update_at q (\<lambda>_. Obj f s' d) R) c h
                (res @ (if s \<noteq> None \<or> f \<noteq> None then [q] else []))
                (case s of Some v \<Rightarrow> [] | None \<Rightarrow> (case f of Some i \<Rightarrow> [i] | None \<Rightarrow> []))"
proof (cases s)
  case (Some v)
  have "update_at q (set_s v) R = R" using at Some by (intro update_at_id[OF at]) simp
  moreover have "update_at q (\<lambda>_. Obj f s' d) R = R"
    using at Some by (intro update_at_id[OF at]) (simp add: s'_def)
  moreover have "bound_to R c same = c" using al by (simp add: bound_to_def)
  ultimately show ?thesis using Some g al
    by (simp add: out_def walked_def Let_def)
next
  case None
  show ?thesis
  proof (cases f)
    case fNone: None
    have "update_at q (\<lambda>_. Obj f s' d) R = R"
      using at None fNone by (intro update_at_id[OF at]) (simp add: s'_def)
    with None fNone g al show ?thesis by (simp add: out_def walked_def)
  next
    case (Some i)
    obtain res0 c1 h1 where e: "getFormat c i False h = (res0, c1, h1)" by (metis prod_cases3)
    show ?thesis
    proof (cases "resolve c i")
      case rNone: None
      from getFormat_spec(6)[OF g e rNone] e None Some rNone show ?thesis
        by (simp add: out_def)
    next
      case (Some a)
      note ra = this
      from getFormat_spec(7)[OF g e ra] have r0: "res0 = Inr a" "h1 = h" "ctl_cache c1 i = Some a"
        by simp_all
      from getFormat_spec(1)[OF g e] getFormat_spec(2)[OF g e] getFormat_spec(5)[OF g e]
      have c1: "ctl_data c1 = ctl_data c" "ctl_generator c1 = None" "resolve c1 = resolve c"
        by simp_all
      let ?R' = "update_at q (set_s a) R"
      have R': "?R' = update_at q (\<lambda>_. Obj f s' d) R"
        using update_at_const[OF at, of "set_s a"] None \<open>f = Some i\<close> ra by (simp add: s'_def)
      have out: "out = Inr (?R', bound_to ?R' c1 same, h, res @ [q])"
        using None \<open>f = Some i\<close> e r0 by (simp add: out_def Let_def)
      have b1: "ctl_generator (bound_to ?R' c1 same) = None"
        using c1 by (simp add: bound_to_def)
      have b2: "same \<longrightarrow> ctl_data (bound_to ?R' c1 same) = ?R'"
        by (simp add: bound_to_def)
      have b3: "resolve (bound_to ?R' c1 same) = resolve c"
      proof (cases same)
        case False
        with c1 show ?thesis by (simp add: bound_to_def)
      next
        case True
        with al c1 have d1: "ctl_data c1 = R" by simp
        from at None \<open>f = Some i\<close> have at': "get_at q R = Some (Obj (Some i) None d)" by simp
        from resolve_rebound[OF at' d1 r0(3)] True c1 show ?thesis by (simp add: bound_to_def)
      qed
      have b4: "ctl_cache c \<subseteq>\<^sub>m ctl_cache (bound_to ?R' c1 same)"
        using getFormat_spec(3)[OF g e] by (simp add: bound_to_def)
      have b5: "i \<in> dom (ctl_cache (bound_to ?R' c1 same))"
        using r0(3) by (auto simp: bound_to_def)
      from out b1 b2 b3 b4 b5 None \<open>f = Some i\<close> ra show ?thesis
        unfolding R'[symmetric] by (simp add: walked_def)
    qed
  qed
qed


lemma walked_trans:
  assumes "walked same out R' c1 h ps ids1" and "resolve c1 = resolve c"
    and "ctl_cache c \<subseteq>\<^sub>m ctl_cache c1" and "set ids0 \<subseteq> dom (ctl_cache c1)"
  shows "walked same out R' c h ps (ids0 @ ids1)"
proof -
  from assms(1) obtain c' where c': "out = Inr (R', c', h, ps)" "ctl_generator c' = None"
    "resolve c' = resolve c1" "same \<longrightarrow> ctl_data c' = R'"
    "ctl_cache c1 \<subseteq>\<^sub>m ctl_cache c'" "set ids1 \<subseteq> dom (ctl_cache c')"
    unfolding walked_def by blast
  from assms(3) c'(5) have 1: "ctl_cache c \<subseteq>\<^sub>m ctl_cache c'" by (rule map_le_trans)
  from c'(5) have "dom (ctl_cache c1) \<subseteq> dom (ctl_cache c')" by (rule map_le_implies_dom_le)
  with assms(4) c'(6) have 2: "set (ids0 @ ids1) \<subseteq> dom (ctl_cache c')" by auto
  from c' 1 2 assms(2) show ?thesis unfolding walked_def by auto
qed

lemma not_truthy_Prim: "\<not> truthy d \<Longrightarrow> \<exists>p. d = Prim p"
  by (cases d) auto

lemma walk:
  fixes st :: "addr json \<times> SbisFormatController \<times> 'fd heap \<times> path list"
  shows
  "callback = recover_entry same \<Longrightarrow> st = (R, c, h, res) \<Longrightarrow> get_at q R = Some j
     \<Longrightarrow> ctl_generator c = None \<Longrightarrow> (same \<longrightarrow> ctl_data c = R)
     \<Longrightarrow> (if \<exists>i\<in>set (refs j). resolve c i = None
          then eachFormatEntry q j callback st = Inl ReferenceError
          else walked same (eachFormatEntry q j callback st)
                 (update_at q (\<lambda>_. attach (resolve c) j) R) c h
                 (res @ map ((@) q) (entry_paths j)) (refs j))"
  "callback = recover_entry same \<Longrightarrow> st = (R, c, h, res) \<Longrightarrow> get_at q R = Some (Arr (ys @ xs))
     \<Longrightarrow> length ys = k \<Longrightarrow> ctl_generator c = None \<Longrightarrow> (same \<longrightarrow> ctl_data c = R)
     \<Longrightarrow> (if \<exists>i\<in>set (refs_list xs). resolve c i = None
          then eachFormatEntry_items q k xs callback st = Inl ReferenceError
          else walked same (eachFormatEntry_items q k xs callback st)
                 (update_at q (\<lambda>_. Arr (ys @ map (attach (resolve c)) xs)) R) c h
                 (res @ map ((@) q) (entry_paths_items k xs)) (refs_list xs))"
proof (induction q j callback st and q k xs callback st
       arbitrary: R c h res and R c h res ys
       rule: eachFormatEntry_eachFormatEntry_items.induct)
  case (1 q xs callback st)
  have a: "get_at q R = Some (Arr ([] @ xs))" using 1(4) by simp
  have l: "length ([] :: addr json list) = 0" by simp
  note ih = 1(1)[OF 1(2) 1(3) a l 1(5) 1(6), unfolded append_Nil]
  show ?case
    unfolding refs.simps entry_paths.simps attach.simps eachFormatEntry.simps by (rule ih)
next
  case (2 q f s d callback st)
  note cb = 2(2) and st = 2(3) and at = 2(4) and g = 2(5) and al = 2(6)
  let ?carrier = "s \<noteq> None \<or> f \<noteq> None"
  let ?out = "if ?carrier then recover_entry same q f s (R, c, h, res) else Inr (R, c, h, res)"
  let ?s' = "case s of Some v \<Rightarrow> Some v | None \<Rightarrow> (case f of Some i \<Rightarrow> resolve c i | None \<Rightarrow> None)"
  let ?R1 = "update_at q (\<lambda>_. Obj f ?s' d) R"
  let ?res1 = "res @ (if ?carrier then [q] else [])"
  let ?own = "case s of Some v \<Rightarrow> [] | None \<Rightarrow> (case f of Some i \<Rightarrow> [i] | None \<Rightarrow> [])"
  note step = callback_step[OF at g al, of h res]
  show ?case
  proof (cases "s = None \<and> (\<exists>i. f = Some i \<and> resolve c i = None)")
    case True
    with step have "?out = Inl ReferenceError" by simp
    moreover from True have "\<exists>i\<in>set (refs (Obj f s d)). resolve c i = None" by auto
    ultimately show ?thesis by (simp add: cb st)
  next
    case False
    with step have "walked same ?out ?R1 c h ?res1 ?own" by simp
    then obtain c1 where out: "?out = Inr (?R1, c1, h, ?res1)"
      and g1: "ctl_generator c1 = None" and r1: "resolve c1 = resolve c"
      and al1: "same \<longrightarrow> ctl_data c1 = ?R1"
      and le1: "ctl_cache c \<subseteq>\<^sub>m ctl_cache c1" and ids1: "set ?own \<subseteq> dom (ctl_cache c1)"
      unfolding walked_def by blast
    from False have own: "(\<exists>i\<in>set (refs (Obj f s d)). resolve c i = None)
                            \<longleftrightarrow> (\<exists>i\<in>set (refs d). resolve c i = None)"
      by (auto split: option.splits)
    have at1: "get_at (q @ [D]) ?R1 = Some d"
      by (simp add: get_at_append get_at_update_at[OF at])
    have upd: "update_at (q @ [D]) (\<lambda>_. A) ?R1 = update_at q (\<lambda>_. Obj f ?s' A) R" for A
      by (simp add: update_at_append update_at_twice)
    have att: "attach (resolve c) (Obj f s d) = Obj f ?s' (attach (resolve c) d)" by simp
    have ps: "?res1 @ map ((@) (q @ [D])) (entry_paths d)
                = res @ map ((@) q) (entry_paths (Obj f s d))" by simp
    show ?thesis
    proof (cases "truthy d")
      case True
      have e: "eachFormatEntry q (Obj f s d) callback st
                 = eachFormatEntry (q @ [D]) d callback (?R1, c1, h, ?res1)"
        using out True by (simp add: cb st)
      have o: "(if ?carrier then callback q f s st else Inr st) = Inr (?R1, c1, h, ?res1)"
        unfolding cb st by (rule out)
      note ih = 2(1)[OF o True cb refl at1 g1 al1]
      show ?thesis
      proof (cases "\<exists>i\<in>set (refs d). resolve c i = None")
        case True
        with ih r1 have "eachFormatEntry (q @ [D]) d callback (?R1, c1, h, ?res1) = Inl ReferenceError"
          by simp
        with own True show ?thesis by (simp only: e if_True)
      next
        case False
        with ih r1 have "walked same (eachFormatEntry (q @ [D]) d callback (?R1, c1, h, ?res1))
                (update_at (q @ [D]) (\<lambda>_. attach (resolve c) d) ?R1) c1 h
                (?res1 @ map ((@) (q @ [D])) (entry_paths d)) (refs d)" by simp
        then have "walked same (eachFormatEntry q (Obj f s d) callback st)
                (update_at q (\<lambda>_. attach (resolve c) (Obj f s d)) R) c h
                (res @ map ((@) q) (entry_paths (Obj f s d))) (refs (Obj f s d))"
          unfolding e upd att ps refs.simps by (rule walked_trans[OF _ r1 le1 ids1])
        with own False show ?thesis by (simp only: if_False)
      qed
    next
      case nt: False
      then obtain p where d: "d = Prim p" using not_truthy_Prim by blast
      have e: "eachFormatEntry q (Obj f s d) callback st = Inr (?R1, c1, h, ?res1)"
        using out nt by (simp add: cb st)
      have w0: "walked same (Inr (?R1, c1, h, ?res1) :: error + addr json \<times> SbisFormatController \<times> 'fd heap \<times> path list)
               ?R1 c h ?res1 ?own"
        using g1 r1 al1 le1 ids1 unfolding walked_def by blast
      have rf0: "refs (Obj f s d) = ?own" by (simp add: d)
      have att0: "attach (resolve c) (Obj f s d) = Obj f ?s' d" by (simp add: d)
      have ps0: "res @ map ((@) q) (entry_paths (Obj f s d)) = ?res1" by (simp add: d)
      have "walked same (eachFormatEntry q (Obj f s d) callback st)
                (update_at q (\<lambda>_. attach (resolve c) (Obj f s d)) R) c h
                (res @ map ((@) q) (entry_paths (Obj f s d))) (refs (Obj f s d))"
        unfolding e att0 ps0 rf0 by (rule w0)
      moreover from own d have "\<not> (\<exists>i\<in>set (refs (Obj f s d)). resolve c i = None)" by simp
      ultimately show ?thesis by (simp only: if_False)
    qed
  qed
next
  case (3 q p callback st)
  from 3(3) have "update_at q (\<lambda>_. Prim p) R = R" by (intro update_at_id[OF 3(3)]) simp
  with 3 show ?case by (simp add: walked_def)
next
  case (4 q k callback st)
  from 4(3) have "update_at q (\<lambda>_. Arr ys) R = R" by (intro update_at_id[OF 4(3)]) simp
  with 4 show ?case by (simp add: walked_def)
next
  case (5 q k item items callback st)
  note cb = 5(3) and st = 5(4) and at = 5(5) and len = 5(6) and g = 5(7) and al = 5(8)
  let ?x' = "attach (resolve c) item"
  let ?R1 = "update_at q (\<lambda>_. Arr (ys @ ?x' # items)) R"
  let ?res1 = "res @ map ((@) (q @ [Item k])) (entry_paths item)"
  have at0: "get_at (q @ [Item k]) R = Some item"
    using at len by (simp add: get_at_append nth_append)
  have lu: "(ys @ item # items)[k := ?x'] = ys @ ?x' # items"
    unfolding len[symmetric] by simp
  have "update_at [Item k] (\<lambda>_. ?x') (Arr (ys @ item # items)) = Arr (ys @ ?x' # items)"
    using len lu by auto
  then have upd0: "update_at (q @ [Item k]) (\<lambda>_. ?x') R = ?R1"
    using update_at_const[OF at, of "update_at [Item k] (\<lambda>_. ?x')"]
    by (simp only: update_at_append)
  note ih1 = 5(1)[OF cb st at0 g al]
  show ?case
  proof (cases "\<exists>i\<in>set (refs item). resolve c i = None")
    case True
    with ih1 have "eachFormatEntry (q @ [Item k]) item callback st = Inl ReferenceError" by simp
    moreover from True have "\<exists>i\<in>set (refs_list (item # items)). resolve c i = None" by auto
    ultimately show ?thesis by simp
  next
    case False
    with ih1 have "walked same (eachFormatEntry (q @ [Item k]) item callback st) ?R1 c h ?res1 (refs item)"
      by (simp add: upd0)
    then obtain c1 where out: "eachFormatEntry (q @ [Item k]) item callback st = Inr (?R1, c1, h, ?res1)"
      and g1: "ctl_generator c1 = None" and r1: "resolve c1 = resolve c"
      and al1: "same \<longrightarrow> ctl_data c1 = ?R1"
      and le1: "ctl_cache c \<subseteq>\<^sub>m ctl_cache c1" and ids1: "set (refs item) \<subseteq> dom (ctl_cache c1)"
      unfolding walked_def by blast
    have at1: "get_at q ?R1 = Some (Arr ((ys @ [?x']) @ items))"
      using get_at_update_at[OF at, of "\<lambda>_. Arr (ys @ ?x' # items)"] by simp
    have len1: "length (ys @ [?x']) = Suc k" using len by simp
    note ih2 = 5(2)[OF out cb refl at1 len1 g1 al1]
    have e: "eachFormatEntry_items q k (item # items) callback st
               = eachFormatEntry_items q (Suc k) items callback (?R1, c1, h, ?res1)"
      using out by simp
    have upd: "update_at q (\<lambda>_. Arr ((ys @ [?x']) @ map (attach (resolve c)) items)) ?R1
                 = update_at q (\<lambda>_. Arr (ys @ map (attach (resolve c)) (item # items))) R"
      by (simp add: update_at_twice)
    have ps: "?res1 @ map ((@) q) (entry_paths_items (Suc k) items)
                = res @ map ((@) q) (entry_paths_items k (item # items))" by simp
    from False have own: "(\<exists>i\<in>set (refs_list (item # items)). resolve c i = None)
                            \<longleftrightarrow> (\<exists>i\<in>set (refs_list items). resolve c i = None)" by auto
    show ?thesis
    proof (cases "\<exists>i\<in>set (refs_list items). resolve c i = None")
      case True
      with ih2 r1 have "eachFormatEntry_items q (Suc k) items callback (?R1, c1, h, ?res1) = Inl ReferenceError"
        by simp
      with own True show ?thesis by (simp only: e if_True)
    next
      case False
      with ih2 r1 have "walked same (eachFormatEntry_items q (Suc k) items callback (?R1, c1, h, ?res1))
                (update_at q (\<lambda>_. Arr ((ys @ [?x']) @ map (attach (resolve c)) items)) ?R1) c1 h
                (?res1 @ map ((@) q) (entry_paths_items (Suc k) items)) (refs_list items)" by simp
      then have "walked same (eachFormatEntry_items q k (item # items) callback st)
                (update_at q (\<lambda>_. Arr (ys @ map (attach (resolve c)) (item # items))) R) c h
                (res @ map ((@) q) (entry_paths_items k (item # items))) (refs_list (item # items))"
        unfolding e upd ps refs_list.simps by (rule walked_trans[OF _ r1 le1 ids1])
      with own False show ?thesis by (simp only: if_False)
    qed
  qed
qed


lemma entry_paths_attach:
  "entry_paths (attach r j) = entry_paths j"
  "entry_paths_items k (map (attach r) xs) = entry_paths_items k xs"
  by (induction j and k xs rule: entry_paths_entry_paths_items.induct)
     (auto split: option.splits)

lemma strip_paths:
  "get_at q R = Some j \<Longrightarrow>
     fold (\<lambda>p. update_at p delete_f) (map ((@) q) (entry_paths j)) R = update_at q (\<lambda>_. strip j) R"
  "get_at q R = Some (Arr (ys @ xs)) \<Longrightarrow> length ys = k \<Longrightarrow>
     fold (\<lambda>p. update_at p delete_f) (map ((@) q) (entry_paths_items k xs)) R
       = update_at q (\<lambda>_. Arr (ys @ map strip xs)) R"
proof (induction j and k xs arbitrary: q R and q R ys rule: entry_paths_entry_paths_items.induct)
  case (1 p)
  then show ?case by (simp add: update_at_id)
next
  case (2 xs)
  have a: "get_at q R = Some (Arr ([] @ xs))" using 2(2) by simp
  from 2(1)[OF a] show ?case by simp
next
  case (3 f s d)
  let ?R1 = "update_at q (\<lambda>_. Obj None s d) R"
  have own: "fold (\<lambda>p. update_at p delete_f) (map ((@) q) (if s \<noteq> None \<or> f \<noteq> None then [[]] else [])) R = ?R1"
  proof (cases "s \<noteq> None \<or> f \<noteq> None")
    case True
    with update_at_const[OF 3(2), of delete_f] show ?thesis by simp
  next
    case False
    with 3(2) have "?R1 = R" by (intro update_at_id[OF 3(2)]) simp
    with False show ?thesis by simp
  qed
  have at1: "get_at (q @ [D]) ?R1 = Some d"
    by (simp add: get_at_append get_at_update_at[OF 3(2)])
  have m: "map ((@) q) (map ((#) D) (entry_paths d)) = map ((@) (q @ [D])) (entry_paths d)"
    by simp
  have "fold (\<lambda>p. update_at p delete_f) (map ((@) q) (entry_paths (Obj f s d))) R
          = fold (\<lambda>p. update_at p delete_f) (map ((@) (q @ [D])) (entry_paths d)) ?R1"
    unfolding entry_paths.simps map_append fold_append m o_apply own ..
  also have "\<dots> = update_at (q @ [D]) (\<lambda>_. strip d) ?R1" by (rule 3(1)[OF at1])
  also have "\<dots> = update_at q (\<lambda>_. strip (Obj f s d)) R"
    by (simp add: update_at_append update_at_twice)
  finally show ?case .
next
  case (4 k)
  then show ?case by (simp add: update_at_id)
next
  case (5 k x xs)
  let ?R1 = "update_at q (\<lambda>_. Arr (ys @ strip x # xs)) R"
  have at0: "get_at (q @ [Item k]) R = Some x"
    using 5(3) 5(4) by (simp add: get_at_append nth_append)
  have lu: "(ys @ x # xs)[k := strip x] = ys @ strip x # xs"
    unfolding 5(4)[symmetric] by simp
  have "update_at [Item k] (\<lambda>_. strip x) (Arr (ys @ x # xs)) = Arr (ys @ strip x # xs)"
    using 5(4) lu by auto
  then have upd0: "update_at (q @ [Item k]) (\<lambda>_. strip x) R = ?R1"
    using update_at_const[OF 5(3), of "update_at [Item k] (\<lambda>_. strip x)"]
    by (simp only: update_at_append)
  have m: "map ((@) q) (map ((#) (Item k)) (entry_paths x)) = map ((@) (q @ [Item k])) (entry_paths x)"
    by simp
  have at1: "get_at q ?R1 = Some (Arr ((ys @ [strip x]) @ xs))"
    using get_at_update_at[OF 5(3), of "\<lambda>_. Arr (ys @ strip x # xs)"] by simp
  have len1: "length (ys @ [strip x]) = Suc k" using 5(4) by simp
  have "fold (\<lambda>p. update_at p delete_f) (map ((@) q) (entry_paths_items k (x # xs))) R
          = fold (\<lambda>p. update_at p delete_f) (map ((@) q) (entry_paths_items (Suc k) xs))
              (fold (\<lambda>p. update_at p delete_f) (map ((@) (q @ [Item k])) (entry_paths x)) R)"
    unfolding entry_paths_items.simps map_append fold_append m o_apply ..
  also have "\<dots> = fold (\<lambda>p. update_at p delete_f) (map ((@) q) (entry_paths_items (Suc k) xs)) ?R1"
    unfolding 5(1)[OF at0] upd0 ..
  also have "\<dots> = update_at q (\<lambda>_. Arr ((ys @ [strip x]) @ map strip xs)) ?R1"
    by (rule 5(2)[OF at1 len1])
  also have "\<dots> = update_at q (\<lambda>_. Arr (ys @ map strip (x # xs))) R"
    by (simp add: update_at_twice)
  finally show ?case .
qed

text \<open>What becomes of the two fields of a carrier, and what the controller answers for an
  id (\<open>None\<close> when it throws).\<close>

fun recovered_entry :: "(int \<Rightarrow> 's option) \<Rightarrow> int option \<times> 's option \<Rightarrow> int option \<times> 's option" where
  "recovered_entry r (f, s) =
     (None, case s of Some v \<Rightarrow> Some v | None \<Rightarrow> (case f of Some i \<Rightarrow> r i | None \<Rightarrow> None))"

definition answer :: "SbisFormatController \<Rightarrow> 'fd heap \<Rightarrow> int \<Rightarrow> addr option" where
  "answer c h i = (case fst (getFormat c i False h) of Inl e \<Rightarrow> None | Inr a \<Rightarrow> Some a)"

lemma answer_resolve: "ctl_generator c = None \<Longrightarrow> answer c h = resolve c"
  by (rule ext) (simp add: answer_def getFormat_result split: option.splits)

lemma entries_recovered:
  "\<forall>i\<in>set (refs j). r i \<noteq> None \<Longrightarrow>
     entries (strip (attach r j)) = map (recovered_entry r) (entries j)"
  "\<forall>i\<in>set (refs_list xs). r i \<noteq> None \<Longrightarrow>
     entries_list (map strip (map (attach r) xs)) = map (recovered_entry r) (entries_list xs)"
  by (induction j and xs rule: entries_entries_list.induct)
     (auto simp del: map_map split: option.splits)

lemma recoverFormats_run:
  fixes h :: "'fd heap"
  assumes g: "ctl_generator c = None" and al: "same \<longrightarrow> ctl_data c = d"
  shows "if \<exists>i\<in>set (refs d). resolve c i = None
         then recoverFormats same d c h = Inl ReferenceError
         else walked same (recoverFormats same d c h) (attach (resolve c) d) c h (entry_paths d) (refs d)"
proof -
  have at: "get_at [] d = Some d" by simp
  have m: "[] @ map ((@) []) (entry_paths d) = entry_paths d" by (simp add: map_idI)
  have u: "update_at [] (\<lambda>_. attach (resolve c) d) d = attach (resolve c) d" by simp
  from walk(1)[OF refl refl at g al, of h "[]"] show ?thesis
    unfolding recoverFormats_def m u .
qed

lemma recoverData_run:
  fixes h :: "'fd heap"
  assumes g: "ctl_generator c = None" and al: "same \<longrightarrow> ctl_data c = d"
  defines "out \<equiv> (case recoverFormats same d c h of
             Inl e \<Rightarrow> Inl e
           | Inr (root, c', h', result) \<Rightarrow>
               (let root' = fold (\<lambda>q. update_at q delete_f) result root
                in Inr (root', bound_to root' c' same, h')))"
  shows "if \<exists>i\<in>set (refs d). resolve c i = None
         then out = Inl ReferenceError
         else \<exists>c'. out = Inr (recovered (resolve c) d, c', h) \<and>
                (same \<longrightarrow> ctl_data c' = recovered (resolve c) d) \<and>
                (\<forall>i\<in>set (refs d). ctl_cache c' i = resolve c i)"
proof (cases "\<exists>i\<in>set (refs d). resolve c i = None")
  case True
  with recoverFormats_run[OF g al, of h] have "recoverFormats same d c h = Inl ReferenceError"
    by (simp only: if_True)
  with True show ?thesis unfolding out_def by simp
next
  case False
  with recoverFormats_run[OF g al, of h]
  have "walked same (recoverFormats same d c h) (attach (resolve c) d) c h (entry_paths d) (refs d)"
    by (simp only: if_False)
  then obtain c1 where rf: "recoverFormats same d c h = Inr (attach (resolve c) d, c1, h, entry_paths d)"
    and r1: "resolve c1 = resolve c"
    and ids: "set (refs d) \<subseteq> dom (ctl_cache c1)"
    unfolding walked_def by blast
  let ?A = "attach (resolve c) d"
  have at: "get_at [] ?A = Some ?A" by simp
  have "fold (\<lambda>q. update_at q delete_f) (map ((@) []) (entry_paths ?A)) ?A = update_at [] (\<lambda>_. strip ?A) ?A"
    by (rule strip_paths(1)[OF at])
  then have second: "fold (\<lambda>q. update_at q delete_f) (entry_paths d) ?A = recovered (resolve c) d"
    by (simp add: map_idI entry_paths_attach recovered_def)
  let ?c' = "bound_to (recovered (resolve c) d) c1 same"
  have o: "out = Inr (recovered (resolve c) d, ?c', h)"
    unfolding out_def rf by (simp add: second Let_def)
  have a: "same \<longrightarrow> ctl_data ?c' = recovered (resolve c) d" by (simp add: bound_to_def)
  have b: "\<forall>i\<in>set (refs d). ctl_cache ?c' i = resolve c i"
  proof
    fix i assume "i \<in> set (refs d)"
    with ids obtain a where ca: "ctl_cache c1 i = Some a" by auto
    from cache_le_resolve[of c1] ca have "resolve c1 i = Some a"
      by (auto simp: map_le_def dom_def)
    with r1 ca show "ctl_cache ?c' i = resolve c i" by (simp add: bound_to_def)
  qed
  from False o a b show ?thesis by (simp only: if_False) blast
qed

lemma controller_or_new_bound:
  assumes "controller_or_new d controller = (c, same)"
  shows "same \<longrightarrow> ctl_data c = d"
  using assms
  by (auto simp: controller_or_new_def bound_to_def SbisFormatController_new_def
           split: option.splits if_splits)

text \<open>The scenario's payload after \<^verbatim>\<open>recoverData\<close>.\<close>

definition example_recovered :: "addr json" where
  "example_recovered =
     Arr [Obj None (Some 0) (Arr [Obj None (Some 1) (Prim PUndefined),
                                  Obj None (Some 0) (Prim PUndefined)])]"

text \<open>
  C5 (amended).  \<open>recoverData(payload, controller)\<close> raises the lookup error exactly when
  \<open>controller.getFormat(f)\<close> raises it for the id of some carrier that has \<open>f\<close> without
  \<open>s\<close>.  Otherwise it returns the payload, updated in place, and afterwards the carriers are the
  same nodes as before, each of them has no \<open>f\<close> field, each one that had an \<open>s\<close> still has
  it, and each one that had \<open>f\<close> without \<open>s\<close> carries the structure that
  \<open>controller.getFormat(f)\<close> returns for that id, before the call and also after it; nothing
  but these fields is changed, and no field list is written to. The controller is the given
  one or a new one bound to the payload, its engine field unset (as it is after any calls);
  the payload may be the very object the controller is bound to (\<open>same\<close>) or another one.
\<close>

theorem C5_recoverData_attaches_and_strips:
  fixes h :: "'fd heap"
  assumes "controller_or_new d controller = (c, same)" and "ctl_generator c = None"
  shows "case recoverData d controller h of
           Inl e \<Rightarrow> e = ReferenceError \<and>
             (\<exists>i\<in>set (refs d). fst (getFormat c i False h) = Inl ReferenceError)
         | Inr (d', c', h') \<Rightarrow>
             (\<forall>i\<in>set (refs d). fst (getFormat c i False h) \<noteq> Inl ReferenceError) \<and>
             d' = recovered (answer c h) d \<and>
             entries d' = map (recovered_entry (answer c h)) (entries d) \<and>
             (same \<longrightarrow> ctl_data c' = d') \<and>
             h' = h \<and>
             (\<forall>i\<in>set (refs d). getFormat c' i False h' = (fst (getFormat c i False h), c', h'))"
proof -
  note g = assms(2)
  note al = controller_or_new_bound[OF assms(1)]
  note run = recoverData_run[OF g al, of h]
  have fails: "fst (getFormat c i False h) = Inl ReferenceError \<longleftrightarrow> resolve c i = None" for i
    by (rule getFormat_fails_iff[OF g])
  show ?thesis
  proof (cases "\<exists>i\<in>set (refs d). resolve c i = None")
    case True
    with run have "recoverData d controller h = Inl ReferenceError"
      unfolding recoverData_def assms(1) by (simp only: if_True prod.case)
    with True show ?thesis by (simp add: fails)
  next
    case False
    with run obtain c' where o: "recoverData d controller h = Inr (recovered (resolve c) d, c', h)"
      and a: "same \<longrightarrow> ctl_data c' = recovered (resolve c) d"
      and b: "\<forall>i\<in>set (refs d). ctl_cache c' i = resolve c i"
      unfolding recoverData_def assms(1) by (simp only: if_False prod.case) blast
    from False have all: "\<forall>i\<in>set (refs d). resolve c i \<noteq> None" by simp
    have 1: "\<forall>i\<in>set (refs d). fst (getFormat c i False h) \<noteq> Inl ReferenceError"
      using all by (simp add: fails)
    have 2: "recovered (resolve c) d = recovered (answer c h) d"
      by (simp add: answer_resolve[OF g])
    have 3: "entries (recovered (resolve c) d) = map (recovered_entry (answer c h)) (entries d)"
      unfolding recovered_def answer_resolve[OF g] by (rule entries_recovered(1)[OF all])
    have 4: "\<forall>i\<in>set (refs d). getFormat c' i False h = (fst (getFormat c i False h), c', h)"
    proof
      fix i assume i: "i \<in> set (refs d)"
      with all obtain v where v: "resolve c i = Some v" by auto
      with b i have "ctl_cache c' i = Some v" by simp
      from getFormat_hit[OF this, of False h] getFormat_result[OF g, of i h] v
      show "getFormat c' i False h = (fst (getFormat c i False h), c', h)" by simp
    qed
    from 1 2 3 4 a show ?thesis unfolding o by simp
  qed
qed

theorem C5_recoverData_attaches_and_strips_witness:
  "controller_or_new example_payload None = (SbisFormatController_new example_payload, True) \<and>
   ctl_generator (SbisFormatController_new example_payload) = None \<and>
   refs example_payload = [1] \<and>
   fst (getFormat (SbisFormatController_new example_payload) 1 False example_heap) = Inr 0 \<and>
   entries example_payload = [(Some 1, Some 0), (Some 2, Some 1), (Some 1, None)] \<and>
   (\<exists>c'. recoverData example_payload None example_heap = Inr (example_recovered, c', example_heap) \<and>
         ctl_data c' = example_recovered \<and>
         getFormat c' 1 False example_heap = (Inr 0, c', example_heap)) \<and>
   recovered (answer (SbisFormatController_new example_payload) example_heap) example_payload
     = example_recovered \<and>
   entries example_recovered = [(None, Some 0), (None, Some 1), (None, Some 0)]"
proof -
  let ?c = "SbisFormatController_new example_payload"
  have n: "controller_or_new example_payload None = (?c, True)"
    by (simp add: controller_or_new_def)
  have g: "ctl_generator ?c = None" by (simp add: SbisFormatController_new_def)
  have r: "refs example_payload = [1]" by (simp add: example_payload_def)
  have l: "fst (getFormat ?c 1 False example_heap) = Inr 0"
    by (simp add: engine_eval controller_eval example_payload_def)
  have e: "entries example_payload = [(Some 1, Some 0), (Some 2, Some 1), (Some 1, None)]"
    by (simp add: example_payload_def)
  have e': "entries example_recovered = [(None, Some 0), (None, Some 1), (None, Some 0)]"
    by (simp add: example_recovered_def)
  have a: "answer ?c example_heap 1 = Some 0" by (simp add: answer_def l)
  have gen: "r 1 = Some 0 \<Longrightarrow> recovered r example_payload = example_recovered"
    for r :: "int \<Rightarrow> addr option"
    by (simp add: recovered_def example_payload_def example_recovered_def)
  have rec: "recovered (answer ?c example_heap) example_payload = example_recovered"
    by (rule gen[of "answer ?c example_heap", OF a])
  obtain c' where o: "recoverData example_payload None example_heap
      = Inr (example_recovered, c', example_heap)"
    by (simp add: recover_eval engine_eval controller_eval example_payload_def
                  example_recovered_def)
  from C5_recoverData_attaches_and_strips[OF n g, of example_heap] n g r l e e' rec o
  show ?thesis by simp
qed

theorem C5_counterexample:
  "recoverData (Obj (Some 3) None (Prim PUndefined)) None example_heap = Inl ReferenceError \<and>
   entries (Obj (Some 3) None (Prim PUndefined) :: addr json) = [(Some 3, None)]"
  by (simp add: recover_eval engine_eval controller_eval)

end
